theory Spec2Isabelle
  imports Main "HOL-Library.Word"
begin

unbundle bit_operations_syntax

section \<open>Registers and the two bus lines\<close>

type_synonym u8 = "8 word"
type_synonym u16 = "16 word"

text \<open>
  Both programs bit-bang the bus through the data direction register \<open>DDRB\<close>; the
  output latch \<open>PORTB\<close> is written once, by \<open>I2C_init\<close>. The slave is seen only
  through the input register \<open>PINB\<close>, whose value at a given moment is whatever the
  outside world puts on the pins: it is a function of the number of register writes
  made so far.

  Besides the registers the state keeps two logs that the C code does not have:
  \<open>trace\<close>, the line macros invoked so far, in order, and \<open>hist\<close>, the pair
  \<open>(DDRB, PORTB)\<close> after every register write, in order.
\<close>

datatype line_op = SdaHigh | SdaLow | SclHigh | SclLow

record mcu =
  DDRB :: u8
  PORTB :: u8
  PINB :: "nat \<Rightarrow> u8"
  trace :: "line_op list"
  hist :: "(u8 \<times> u8) list"

definition PB0 :: nat where "PB0 = 0"
definition PB2 :: nat where "PB2 = 2"

definition I2C_SDA :: nat where "I2C_SDA = PB0"
definition I2C_SCL :: nat where "I2C_SCL = PB2"

text \<open>\<open>DDRB &= ~m\<close> and \<open>DDRB |= m\<close>, \<open>PORTB &= ~m\<close>: one register write each.\<close>

definition DDRB_clear :: "u8 \<Rightarrow> mcu \<Rightarrow> mcu" where
  "DDRB_clear m s =
     (let d = DDRB s AND NOT m in s\<lparr>DDRB := d, hist := hist s @ [(d, PORTB s)]\<rparr>)"

definition DDRB_set :: "u8 \<Rightarrow> mcu \<Rightarrow> mcu" where
  "DDRB_set m s =
     (let d = DDRB s OR m in s\<lparr>DDRB := d, hist := hist s @ [(d, PORTB s)]\<rparr>)"

definition PORTB_clear :: "u8 \<Rightarrow> mcu \<Rightarrow> mcu" where
  "PORTB_clear m s =
     (let p = PORTB s AND NOT m in s\<lparr>PORTB := p, hist := hist s @ [(DDRB s, p)]\<rparr>)"

definition emit :: "line_op \<Rightarrow> mcu \<Rightarrow> mcu" where
  "emit a s = s\<lparr>trace := trace s @ [a]\<rparr>"

definition I2C_SDA_HIGH :: "mcu \<Rightarrow> mcu" where
  "I2C_SDA_HIGH s = emit SdaHigh (DDRB_clear (push_bit I2C_SDA 1) s)"

definition I2C_SDA_LOW :: "mcu \<Rightarrow> mcu" where
  "I2C_SDA_LOW s = emit SdaLow (DDRB_set (push_bit I2C_SDA 1) s)"

definition I2C_SCL_HIGH :: "mcu \<Rightarrow> mcu" where
  "I2C_SCL_HIGH s = emit SclHigh (DDRB_clear (push_bit I2C_SCL 1) s)"

definition I2C_SCL_LOW :: "mcu \<Rightarrow> mcu" where
  "I2C_SCL_LOW s = emit SclLow (DDRB_set (push_bit I2C_SCL 1) s)"

definition I2C_SDA_READ :: "mcu \<Rightarrow> u8" where
  "I2C_SDA_READ s = PINB s (length (hist s)) AND push_bit I2C_SDA 1"

section \<open>The I2C engine of the text demo (software/main.c)\<close>

definition I2C_init :: "mcu \<Rightarrow> mcu" where
  "I2C_init s =
     PORTB_clear (push_bit I2C_SDA 1 OR push_bit I2C_SCL 1)
       (DDRB_clear (push_bit I2C_SDA 1 OR push_bit I2C_SCL 1) s)"

definition I2C_start :: "mcu \<Rightarrow> mcu" where
  "I2C_start s = I2C_SCL_LOW (I2C_SDA_LOW s)"

definition I2C_stop :: "mcu \<Rightarrow> mcu" where
  "I2C_stop s = I2C_SDA_HIGH (I2C_SCL_HIGH (I2C_SDA_LOW s))"

text \<open>The body of the bit loop of \<open>I2C_write\<close>, and the loop
  \<open>for (i = 8; i; i--, data <<= 1)\<close> around it.\<close>

definition write_bit :: "u8 \<Rightarrow> mcu \<Rightarrow> mcu" where
  "write_bit data s =
     (let s1 = I2C_SDA_LOW s;
          s2 = (if data AND 0x80 \<noteq> 0 then I2C_SDA_HIGH s1 else s1)
      in I2C_SCL_LOW (I2C_SCL_HIGH s2))"

function write_loop :: "u8 \<Rightarrow> u8 \<Rightarrow> mcu \<Rightarrow> mcu" where
  "write_loop i data s =
     (if i \<noteq> 0 then write_loop (i - 1) (push_bit 1 data) (write_bit data s) else s)"
  by pat_completeness auto
termination
  by (relation "measure (\<lambda>(i, data, s). unat i)") (auto simp: measure_unat)

declare write_loop.simps [simp del]

definition I2C_write :: "u8 \<Rightarrow> mcu \<Rightarrow> mcu" where
  "I2C_write data s = I2C_SCL_LOW (I2C_SCL_HIGH (I2C_SDA_HIGH (write_loop 8 data s)))"

text \<open>\<open>I2C_read\<close>: the loop shifts the sampled bits into \<open>data\<close>; the result is the
  received byte and the new state.\<close>

definition read_bit :: "u8 \<Rightarrow> mcu \<Rightarrow> u8 \<times> mcu" where
  "read_bit data s =
     (let d1 = push_bit 1 data;
          s1 = I2C_SCL_HIGH s;
          d2 = (if I2C_SDA_READ s1 \<noteq> 0 then d1 OR 1 else d1)
      in (d2, I2C_SCL_LOW s1))"

function read_loop :: "u8 \<Rightarrow> u8 \<Rightarrow> mcu \<Rightarrow> u8 \<times> mcu" where
  "read_loop i data s =
     (if i \<noteq> 0 then (case read_bit data s of (d, s') \<Rightarrow> read_loop (i - 1) d s')
      else (data, s))"
  by pat_completeness auto
termination
  by (relation "measure (\<lambda>(i, data, s). unat i)") (auto simp: measure_unat)

declare read_loop.simps [simp del]

definition I2C_read :: "u8 \<Rightarrow> mcu \<Rightarrow> u8 \<times> mcu" where
  "I2C_read ack s =
     (case read_loop 8 0 (I2C_SDA_HIGH s) of (data, s1) \<Rightarrow>
        let s2 = (if ack \<noteq> 0 then I2C_SDA_LOW s1 else s1)
        in (data, I2C_SDA_HIGH (I2C_SCL_LOW (I2C_SCL_HIGH s2))))"

section \<open>Tables in program memory\<close>

text \<open>\<open>pgm_read_byte(&table[i])\<close>. The C code checks no index; a read outside the
  array returns whatever the flash holds there, which the program does not determine:
  that is \<open>None\<close>.\<close>

definition pgm_read_byte :: "u8 list \<Rightarrow> nat \<Rightarrow> u8 option" where
  "pgm_read_byte table i = (if i < length table then Some (table ! i) else None)"

section \<open>The display driver and text renderer (software/main.c)\<close>

definition OLED_ADDR :: u8 where "OLED_ADDR = 0x78"
definition OLED_INIT_LEN :: u8 where "OLED_INIT_LEN = 18"

definition OLED_INIT_CMD :: "u8 list" where
  "OLED_INIT_CMD =
     [0xA8, 0x1F,
      0x22, 0x00, 0x03,
      0x20, 0x00,
      0xD3, 0x00,
      0xDA, 0x02,
      0xDB, 0x40,
      0xD9, 0xF1,
      0x8D, 0x14,
      0xAF,
      0xA1, 0xC8]"

definition OLED_font :: "u8 list" where
  "OLED_font =
     [
      0x00, 0x00, 0x00, 0x00, 0x00,
      0x00, 0x00, 0x2F, 0x00, 0x00,
      0x00, 0x07, 0x00, 0x07, 0x00,
      0x14, 0x7F, 0x14, 0x7F, 0x14,
      0x24, 0x2A, 0x7F, 0x2A, 0x12,
      0x62, 0x64, 0x08, 0x13, 0x23,
      0x36, 0x49, 0x55, 0x22, 0x50,
      0x00, 0x05, 0x03, 0x00, 0x00,
      0x00, 0x1C, 0x22, 0x41, 0x00,
      0x00, 0x41, 0x22, 0x1C, 0x00,
      0x14, 0x08, 0x3E, 0x08, 0x14,
      0x08, 0x08, 0x3E, 0x08, 0x08,
      0x00, 0x00, 0xA0, 0x60, 0x00,
      0x08, 0x08, 0x08, 0x08, 0x08,
      0x00, 0x60, 0x60, 0x00, 0x00,
      0x20, 0x10, 0x08, 0x04, 0x02,
      0x3E, 0x51, 0x49, 0x45, 0x3E,
      0x00, 0x42, 0x7F, 0x40, 0x00,
      0x42, 0x61, 0x51, 0x49, 0x46,
      0x21, 0x41, 0x45, 0x4B, 0x31,
      0x18, 0x14, 0x12, 0x7F, 0x10,
      0x27, 0x45, 0x45, 0x45, 0x39,
      0x3C, 0x4A, 0x49, 0x49, 0x30,
      0x01, 0x71, 0x09, 0x05, 0x03,
      0x36, 0x49, 0x49, 0x49, 0x36,
      0x06, 0x49, 0x49, 0x29, 0x1E,
      0x00, 0x36, 0x36, 0x00, 0x00,
      0x00, 0x56, 0x36, 0x00, 0x00,
      0x08, 0x14, 0x22, 0x41, 0x00,
      0x14, 0x14, 0x14, 0x14, 0x14,
      0x00, 0x41, 0x22, 0x14, 0x08,
      0x02, 0x01, 0x51, 0x09, 0x06,
      0x32, 0x49, 0x59, 0x51, 0x3E,
      0x7C, 0x12, 0x11, 0x12, 0x7C,
      0x7F, 0x49, 0x49, 0x49, 0x36,
      0x3E, 0x41, 0x41, 0x41, 0x22,
      0x7F, 0x41, 0x41, 0x22, 0x1C,
      0x7F, 0x49, 0x49, 0x49, 0x41,
      0x7F, 0x09, 0x09, 0x09, 0x01,
      0x3E, 0x41, 0x49, 0x49, 0x7A,
      0x7F, 0x08, 0x08, 0x08, 0x7F,
      0x00, 0x41, 0x7F, 0x41, 0x00,
      0x20, 0x40, 0x41, 0x3F, 0x01,
      0x7F, 0x08, 0x14, 0x22, 0x41,
      0x7F, 0x40, 0x40, 0x40, 0x40,
      0x7F, 0x02, 0x0C, 0x02, 0x7F,
      0x7F, 0x04, 0x08, 0x10, 0x7F,
      0x3E, 0x41, 0x41, 0x41, 0x3E,
      0x7F, 0x09, 0x09, 0x09, 0x06,
      0x3E, 0x41, 0x51, 0x21, 0x5E,
      0x7F, 0x09, 0x19, 0x29, 0x46,
      0x46, 0x49, 0x49, 0x49, 0x31,
      0x01, 0x01, 0x7F, 0x01, 0x01,
      0x3F, 0x40, 0x40, 0x40, 0x3F,
      0x1F, 0x20, 0x40, 0x20, 0x1F,
      0x3F, 0x40, 0x38, 0x40, 0x3F,
      0x63, 0x14, 0x08, 0x14, 0x63,
      0x07, 0x08, 0x70, 0x08, 0x07,
      0x61, 0x51, 0x49, 0x45, 0x43,
      0x00, 0x7F, 0x41, 0x41, 0x00,
      0x02, 0x04, 0x08, 0x10, 0x20,
      0x00, 0x41, 0x41, 0x7F, 0x00,
      0x04, 0x02, 0x01, 0x02, 0x04,
      0x40, 0x40, 0x40, 0x40, 0x40]"

function init_loop :: "u8 \<Rightarrow> mcu \<Rightarrow> mcu option" where
  "init_loop i s =
     (if i < OLED_INIT_LEN then
        (case pgm_read_byte OLED_INIT_CMD (unat i) of
           None \<Rightarrow> None
         | Some b \<Rightarrow> init_loop (i + 1) (I2C_write b s))
      else Some s)"
  by pat_completeness auto
termination
proof (relation "measure (\<lambda>(i, s). unat OLED_INIT_LEN - unat i)")
  show "wf (measure (\<lambda>(i, s). unat OLED_INIT_LEN - unat i))"
    by simp
next
  fix i :: u8 and s :: mcu and b :: u8
  assume "i < OLED_INIT_LEN"
  then have "unat i < 18"
    by (simp add: OLED_INIT_LEN_def word_less_nat_alt)
  then have "unat (i + 1) = unat i + 1"
    by (simp add: unat_word_ariths)
  with \<open>unat i < 18\<close>
  show "((i + 1, I2C_write b s), (i, s)) \<in> measure (\<lambda>(i, s). unat OLED_INIT_LEN - unat i)"
    by (simp add: OLED_INIT_LEN_def)
qed

declare init_loop.simps [simp del]

definition OLED_init :: "mcu \<Rightarrow> mcu option" where
  "OLED_init s = map_option I2C_stop
     (init_loop 0 (I2C_write 0x00 (I2C_write OLED_ADDR (I2C_start (I2C_init s)))))"

text \<open>\<open>OLED_printC(char ch)\<close>. Whether plain \<open>char\<close> is signed is a compiler
  setting that the sources do not fix, so it is the parameter \<open>sc\<close>. \<open>ch - 32\<close> is
  computed in \<open>int\<close> after the integer promotion, and the product is converted to
  \<open>uint16_t\<close>.\<close>

definition char_to_int :: "bool \<Rightarrow> u8 \<Rightarrow> int" where
  "char_to_int sc ch = (if sc then sint ch else uint ch)"

definition font_offset :: "bool \<Rightarrow> u8 \<Rightarrow> u16" where
  "font_offset sc ch = word_of_int ((char_to_int sc ch - 32) * 5)"

function printC_loop :: "u8 \<Rightarrow> u16 \<Rightarrow> mcu \<Rightarrow> mcu option" where
  "printC_loop i offset s =
     (if i \<noteq> 0 then
        (case pgm_read_byte OLED_font (unat offset) of
           None \<Rightarrow> None
         | Some b \<Rightarrow> printC_loop (i - 1) (offset + 1) (I2C_write b s))
      else Some s)"
  by pat_completeness auto
termination
  by (relation "measure (\<lambda>(i, offset, s). unat i)") (auto simp: measure_unat)

declare printC_loop.simps [simp del]

definition OLED_printC :: "bool \<Rightarrow> u8 \<Rightarrow> mcu \<Rightarrow> mcu option" where
  "OLED_printC sc ch s = printC_loop 5 (font_offset sc ch) (I2C_write 0x00 s)"

text \<open>\<open>OLED_printP(const char* p)\<close>: \<open>mem\<close> is the array in program memory that
  \<open>p\<close> points into, and \<open>p\<close> the index of the character pointed at.\<close>

function printP_loop :: "bool \<Rightarrow> u8 list \<Rightarrow> u8 \<Rightarrow> nat \<Rightarrow> mcu \<Rightarrow> mcu option" where
  "printP_loop sc mem ch p s =
     (if ch \<noteq> 0 then
        (case OLED_printC sc ch s of
           None \<Rightarrow> None
         | Some s1 \<Rightarrow>
             (case pgm_read_byte mem (p + 1) of
                None \<Rightarrow> None
              | Some ch1 \<Rightarrow> printP_loop sc mem ch1 (p + 1) s1))
      else Some s)"
  by pat_completeness auto
termination
  by (relation "measure (\<lambda>(sc, mem, ch, p, s). length mem - p)")
    (auto simp: pgm_read_byte_def split: if_splits)

declare printP_loop.simps [simp del]

definition OLED_printP :: "bool \<Rightarrow> u8 list \<Rightarrow> nat \<Rightarrow> mcu \<Rightarrow> mcu option" where
  "OLED_printP sc mem p s =
     (let s1 = I2C_write 0x40 (I2C_write OLED_ADDR (I2C_start s))
      in case pgm_read_byte mem p of
           None \<Rightarrow> None
         | Some ch \<Rightarrow> map_option I2C_stop (printP_loop sc mem ch p s1))"

definition OLED_cursor :: "u8 \<Rightarrow> u8 \<Rightarrow> mcu \<Rightarrow> mcu" where
  "OLED_cursor xpos ypos s =
     I2C_stop
       (I2C_write (0xB0 OR (ypos AND 0x07))
         (I2C_write (0x10 OR drop_bit 4 xpos)
           (I2C_write (xpos AND 0x0F)
             (I2C_write 0x00 (I2C_write OLED_ADDR (I2C_start s))))))"

function clear_loop :: "u16 \<Rightarrow> mcu \<Rightarrow> mcu" where
  "clear_loop i s = (if i \<noteq> 0 then clear_loop (i - 1) (I2C_write 0x00 s) else s)"
  by pat_completeness auto
termination
  by (relation "measure (\<lambda>(i, s). unat i)") (auto simp: measure_unat)

declare clear_loop.simps [simp del]

definition OLED_clear :: "mcu \<Rightarrow> mcu" where
  "OLED_clear s =
     I2C_stop
       (clear_loop 512
         (I2C_write 0x40 (I2C_write OLED_ADDR (I2C_start (OLED_cursor 0 0 s)))))"

section \<open>The big-digit demo (software/TinyOLEDdemo_t10_bignumbers/main.c)\<close>

text \<open>The line macros, \<open>I2C_init\<close> and \<open>I2C_stop\<close> are the same as in the text demo.
  \<open>I2C_write\<close> shifts \<open>data\<close> inside the clock pulse (its \<open>nop\<close> is a delay and
  changes nothing), and \<open>I2C_start\<close> also sends the address.\<close>

function write_loop_t10 :: "u8 \<Rightarrow> u8 \<Rightarrow> mcu \<Rightarrow> mcu" where
  "write_loop_t10 i data s =
     (if i \<noteq> 0 then
        (let s1 = I2C_SDA_LOW s;
             s2 = (if data AND 0x80 \<noteq> 0 then I2C_SDA_HIGH s1 else s1);
             s3 = I2C_SCL_HIGH s2;
             data1 = push_bit 1 data
         in write_loop_t10 (i - 1) data1 (I2C_SCL_LOW s3))
      else s)"
  by pat_completeness auto
termination
  by (relation "measure (\<lambda>(i, data, s). unat i)") (auto simp: measure_unat)

declare write_loop_t10.simps [simp del]

definition I2C_write_t10 :: "u8 \<Rightarrow> mcu \<Rightarrow> mcu" where
  "I2C_write_t10 data s =
     I2C_SCL_LOW (I2C_SCL_HIGH (I2C_SDA_HIGH (write_loop_t10 8 data s)))"

definition I2C_start_t10 :: "u8 \<Rightarrow> mcu \<Rightarrow> mcu" where
  "I2C_start_t10 addr s = I2C_write_t10 addr (I2C_SCL_LOW (I2C_SDA_LOW s))"

definition OLED_FONT :: "u8 list" where
  "OLED_FONT =
     [
      0x7F, 0x41, 0x7F,
      0x00, 0x00, 0x7F,
      0x79, 0x49, 0x4F,
      0x41, 0x49, 0x7F,
      0x0F, 0x08, 0x7E,
      0x4F, 0x49, 0x79,
      0x7F, 0x49, 0x79,
      0x03, 0x01, 0x7F,
      0x7F, 0x49, 0x7F,
      0x4F, 0x49, 0x7F,
      0x7F, 0x09, 0x7F,
      0x7F, 0x48, 0x78,
      0x7F, 0x41, 0x63,
      0x78, 0x48, 0x7F,
      0x7F, 0x49, 0x41,
      0x7F, 0x09, 0x01,
      0x00, 0x60, 0x00,
      0x00, 0x36, 0x00,
      0x08, 0x08, 0x08,
      0x00, 0x00, 0x00]"

definition OLED_stretch :: "u8 \<Rightarrow> u8" where
  "OLED_stretch b =
     (let b1 = push_bit 3 (b AND 2) OR (b AND 1);
          b2 = b1 OR push_bit 1 b1;
          b3 = b2 OR push_bit 2 b2
      in b3)"

text \<open>The loops of \<open>OLED_printD\<close>. The local array \<open>sb\<close> is a list of four bytes.\<close>

function spacing_loop :: "u8 \<Rightarrow> mcu \<Rightarrow> mcu" where
  "spacing_loop i s = (if i \<noteq> 0 then spacing_loop (i - 1) (I2C_write_t10 0x00 s) else s)"
  by pat_completeness auto
termination
  by (relation "measure (\<lambda>(i, s). unat i)") (auto simp: measure_unat)

declare spacing_loop.simps [simp del]

function stretch_loop :: "u8 \<Rightarrow> u8 \<Rightarrow> u8 list \<Rightarrow> u8 list" where
  "stretch_loop j b sb =
     (if j < 4 then stretch_loop (j + 1) (drop_bit 2 b) (sb[unat j := OLED_stretch b])
      else sb)"
  by pat_completeness auto
termination
  by (relation "measure (\<lambda>(j, b, sb). 4 - unat j)") (auto simp: word_less_nat_alt unat_word_ariths)

declare stretch_loop.simps [simp del]

function column_loop :: "u8 \<Rightarrow> u8 list \<Rightarrow> mcu \<Rightarrow> mcu" where
  "column_loop k sb s =
     (if k < 4 then column_loop (k + 1) sb (I2C_write_t10 (sb ! unat k) s) else s)"
  by pat_completeness auto
termination
  by (relation "measure (\<lambda>(k, sb, s). 4 - unat k)") (auto simp: word_less_nat_alt unat_word_ariths)

declare column_loop.simps [simp del]

text \<open>\<open>while (j--)\<close>: the test reads \<open>j\<close>, then \<open>j\<close> is decremented.\<close>

function repeat_loop :: "u8 \<Rightarrow> u8 list \<Rightarrow> mcu \<Rightarrow> mcu" where
  "repeat_loop j sb s =
     (if j \<noteq> 0 then repeat_loop (j - 1) sb (column_loop 0 sb s) else s)"
  by pat_completeness auto
termination
  by (relation "measure (\<lambda>(j, sb, s). unat j)") (auto simp: measure_unat)

declare repeat_loop.simps [simp del]

function glyph_loop :: "u8 \<Rightarrow> u8 \<Rightarrow> u8 list \<Rightarrow> mcu \<Rightarrow> mcu option" where
  "glyph_loop i ch sb s =
     (if i \<noteq> 0 then
        (case pgm_read_byte OLED_FONT (unat ch) of
           None \<Rightarrow> None
         | Some b \<Rightarrow>
             (let sb1 = stretch_loop 0 b sb;
                  j = (if i = 2 then 6 else 4)
              in glyph_loop (i - 1) (ch + 1) sb1 (repeat_loop j sb1 s)))
      else Some s)"
  by pat_completeness auto
termination
  by (relation "measure (\<lambda>(i, ch, sb, s). unat i)") (auto simp: measure_unat)

declare glyph_loop.simps [simp del]

text \<open>\<open>sb\<close> is not initialised in the C code; \<open>stretch_loop\<close> writes all four entries
  before \<open>column_loop\<close> reads any, so the model starts it at zeros.\<close>

definition OLED_printD :: "u8 \<Rightarrow> mcu \<Rightarrow> mcu option" where
  "OLED_printD ch s = glyph_loop 3 (ch + push_bit 1 ch) (replicate 4 0) (spacing_loop 8 s)"

text \<open>The counter update in the loop of \<open>main\<close>: \<open>counter_a++\<close>, and on overflow
  \<open>counter_b++\<close>, and on its overflow \<open>counter_c++\<close>.\<close>

definition count_step :: "u8 \<times> u8 \<times> u8 \<Rightarrow> u8 \<times> u8 \<times> u8" where
  "count_step = (\<lambda>(counter_a, counter_b, counter_c).
     (let a1 = counter_a + 1 in
      if a1 = 0 then
        (let b1 = counter_b + 1 in
         if b1 = 0 then (a1, b1, counter_c + 1) else (a1, b1, counter_c))
      else (a1, counter_b, counter_c)))"

section \<open>What the specification says goes over the wire\<close>

text \<open>These definitions follow the words of the specification, not the code; the
  theorems compare the logs of the code with them. One bit: data LOW, data released if
  the bit \<open>(b << i) & 0x80\<close> is set, clock HIGH, clock LOW. One byte: the eight bits,
  most significant first, then data released and one more clock pulse for the
  acknowledge bit.\<close>

definition bit_seq :: "u8 \<Rightarrow> nat \<Rightarrow> line_op list" where
  "bit_seq b i =
     SdaLow # (if push_bit i b AND 0x80 \<noteq> 0 then [SdaHigh] else []) @ [SclHigh, SclLow]"

definition byte_seq :: "u8 \<Rightarrow> line_op list" where
  "byte_seq b = concat (map (bit_seq b) [0..<8]) @ [SdaHigh, SclHigh, SclLow]"

definition bytes_seq :: "u8 list \<Rightarrow> line_op list" where
  "bytes_seq bs = concat (map byte_seq bs)"

definition start_seq :: "line_op list" where
  "start_seq = [SdaLow, SclLow]"

definition stop_seq :: "line_op list" where
  "stop_seq = [SdaLow, SclHigh, SdaHigh]"

text \<open>A transaction: START, the bytes (address first), STOP.\<close>

definition frame :: "u8 list \<Rightarrow> line_op list" where
  "frame bs = start_seq @ bytes_seq bs @ stop_seq"

text \<open>The clock pulses in a log: the clock macros in order, counting each \<open>SclHigh\<close>
  that is followed by \<open>SclLow\<close>.\<close>

fun count_pulses :: "line_op list \<Rightarrow> nat" where
  "count_pulses (SclHigh # SclLow # ops) = Suc (count_pulses ops)"
| "count_pulses (a # ops) = count_pulses ops"
| "count_pulses [] = 0"

definition clock_pulses :: "line_op list \<Rightarrow> nat" where
  "clock_pulses ops = count_pulses (filter (\<lambda>a. a = SclHigh \<or> a = SclLow) ops)"

text \<open>Reading a log back, as a receiver would: \<open>parse_bits n\<close> takes \<open>n\<close> bits off the
  front of a log, a set bit being data LOW, data released, clock pulse, and a clear bit
  data LOW, clock pulse.\<close>

fun parse_bits :: "nat \<Rightarrow> line_op list \<Rightarrow> (bool list \<times> line_op list) option" where
  "parse_bits 0 ops = Some ([], ops)"
| "parse_bits (Suc n) (SdaLow # SdaHigh # SclHigh # SclLow # ops) =
     map_option (\<lambda>(bs, r). (True # bs, r)) (parse_bits n ops)"
| "parse_bits (Suc n) (SdaLow # SclHigh # SclLow # ops) =
     map_option (\<lambda>(bs, r). (False # bs, r)) (parse_bits n ops)"
| "parse_bits (Suc n) ops = None"

section \<open>What the specification says the renderers send\<close>

text \<open>What the specification says the text renderer sends for one character: one zero
  byte of spacing, then the five font bytes at offset \<open>(code - 32) * 5\<close>.\<close>

definition glyph :: "u8 \<Rightarrow> u8 list" where
  "glyph c = 0x00 # take 5 (drop ((unat c - 32) * 5) OLED_font)"

definition in_font :: "u8 \<Rightarrow> bool" where
  "in_font c = (32 \<le> c \<and> c \<le> 95)"

text \<open>The four stretched bytes of one source byte of a big digit, and a column of the
  digit: those four bytes \<open>n\<close> times.\<close>

definition stretch4 :: "u8 \<Rightarrow> u8 list" where
  "stretch4 b =
     [OLED_stretch b, OLED_stretch (drop_bit 2 b),
      OLED_stretch (drop_bit 4 b), OLED_stretch (drop_bit 6 b)]"

definition row :: "nat \<Rightarrow> u8 \<Rightarrow> u8 list" where
  "row n b = concat (replicate n (stretch4 b))"

section \<open>Pins, sequences of calls and the invariant of the engine\<close>

text \<open>What a pin does, by its bits in \<open>DDRB\<close> and \<open>PORTB\<close>: an input floats (or has the
  internal pull-up when its \<open>PORTB\<close> bit is set), an output drives the level of its
  \<open>PORTB\<close> bit.\<close>

datatype pin = Floating | PullUp | DriveLow | DriveHigh

definition pin_state :: "nat \<Rightarrow> u8 \<times> u8 \<Rightarrow> pin" where
  "pin_state n = (\<lambda>(d, p).
     if bit d n then (if bit p n then DriveHigh else DriveLow)
     else (if bit p n then PullUp else Floating))"

definition lines :: "u8 \<times> u8 \<Rightarrow> pin \<times> pin" where
  "lines r = (pin_state I2C_SDA r, pin_state I2C_SCL r)"

text \<open>A pin that is not driven HIGH, and a pin that is driven LOW or floats.\<close>

definition never_high :: "u8 \<times> u8 \<Rightarrow> bool" where
  "never_high r = (pin_state I2C_SDA r \<noteq> DriveHigh \<and> pin_state I2C_SCL r \<noteq> DriveHigh)"

definition low_or_float :: "u8 \<times> u8 \<Rightarrow> bool" where
  "low_or_float r =
     ((pin_state I2C_SDA r = DriveLow \<or> pin_state I2C_SDA r = Floating) \<and>
      (pin_state I2C_SCL r = DriveLow \<or> pin_state I2C_SCL r = Floating))"

text \<open>The operations of the I2C engine of the text demo, to speak about any sequence
  of calls. The byte that \<open>I2C_read\<close> returns is dropped.\<close>

datatype i2c_call = Init | Start | Stop | WriteByte u8 | ReadByte u8

fun exec_call :: "i2c_call \<Rightarrow> mcu \<Rightarrow> mcu" where
  "exec_call Init s = I2C_init s"
| "exec_call Start s = I2C_start s"
| "exec_call Stop s = I2C_stop s"
| "exec_call (WriteByte b) s = I2C_write b s"
| "exec_call (ReadByte ack) s = snd (I2C_read ack s)"

text \<open>The invariant of the engine: the \<open>PORTB\<close> bits of both lines are clear, and of the
  register states logged so far none drives a line HIGH and all but the first leave
  both lines driven LOW or floating.\<close>

definition port_clear :: "mcu \<Rightarrow> bool" where
  "port_clear s = (\<not> bit (PORTB s) I2C_SDA \<and> \<not> bit (PORTB s) I2C_SCL)"

definition bus_inv :: "mcu \<Rightarrow> bool" where
  "bus_inv s = (port_clear s \<and> hist s \<noteq> [] \<and> list_all never_high (hist s) \<and>
     list_all low_or_float (tl (hist s)))"

text \<open>What a line action is in the registers and on the pins. Driving a line LOW makes
  its pin an output (its \<open>DDRB\<close> bit set), releasing it makes the pin an input (the bit
  clear); \<open>ddr_seq d ops\<close> are the values of \<open>DDRB\<close> after each action of \<open>ops\<close>, from
  \<open>d\<close>. On the pins, an action changes its own line and leaves the other as it is.\<close>

fun ddr_step :: "line_op \<Rightarrow> u8 \<Rightarrow> u8" where
  "ddr_step SdaHigh d = unset_bit 0 d"
| "ddr_step SdaLow d = set_bit 0 d"
| "ddr_step SclHigh d = unset_bit 2 d"
| "ddr_step SclLow d = set_bit 2 d"

fun ddr_seq :: "u8 \<Rightarrow> line_op list \<Rightarrow> u8 list" where
  "ddr_seq d [] = []"
| "ddr_seq d (a # ops) = ddr_step a d # ddr_seq (ddr_step a d) ops"

fun pin_step :: "line_op \<Rightarrow> pin \<times> pin \<Rightarrow> pin \<times> pin" where
  "pin_step SdaHigh (sda, scl) = (Floating, scl)"
| "pin_step SdaLow (sda, scl) = (DriveLow, scl)"
| "pin_step SclHigh (sda, scl) = (sda, Floating)"
| "pin_step SclLow (sda, scl) = (sda, DriveLow)"

fun pin_seq :: "pin \<times> pin \<Rightarrow> line_op list \<Rightarrow> (pin \<times> pin) list" where
  "pin_seq l [] = []"
| "pin_seq l (a # ops) = pin_step a l # pin_seq (pin_step a l) ops"

text \<open>\<open>drives ops s s'\<close>: from \<open>s\<close> to \<open>s'\<close> exactly the line actions \<open>ops\<close> were carried
  out, in the log of macros and in the registers: one write to \<open>DDRB\<close> per action, with
  the value that action gives, \<open>PORTB\<close> and the pins' inputs untouched. It fixes every
  field of \<open>s'\<close>.\<close>

definition drives :: "line_op list \<Rightarrow> mcu \<Rightarrow> mcu \<Rightarrow> bool" where
  "drives ops s s' =
     (trace s' = trace s @ ops \<and>
      hist s' = hist s @ map (\<lambda>d. (d, PORTB s)) (ddr_seq (DDRB s) ops) \<and>
      DDRB s' = fold ddr_step ops (DDRB s) \<and>
      PORTB s' = PORTB s \<and>
      PINB s' = PINB s)"

section \<open>Example inputs\<close>

text \<open>A state to run examples from: registers as after reset, nothing logged, and a
  slave that never pulls a line low.\<close>

definition power_on :: mcu where
  "power_on = \<lparr>DDRB = 0, PORTB = 0, PINB = (\<lambda>t. 0), trace = [], hist = []\<rparr>"

text \<open>\<open>Message1\<close> of the text demo, \<open>"HELLO WORLD !"\<close>, as it lies in program memory:
  ASCII codes and the terminating zero.\<close>

definition Message1 :: "u8 list" where
  "Message1 =
     [0x48, 0x45, 0x4C, 0x4C, 0x4F, 0x20, 0x57, 0x4F, 0x52, 0x4C, 0x44, 0x20, 0x21, 0x00]"

section \<open>Lemmas about the logs and the loops\<close>

lemma unat_pred: "i \<noteq> 0 \<Longrightarrow> unat (i :: 'a::len word) = Suc (unat (i - 1))"
  by (simp add: unat_minus_one unat_gt_0)

lemma upt_unat_pred:
  "i \<noteq> 0 \<Longrightarrow> [0..<unat (i :: 'a::len word)] = 0 # map Suc [0..<unat (i - 1)]"
  using unat_pred [of i] by (simp add: upt_conv_Cons map_Suc_upt del: upt_Suc)

lemma trace_emit: "trace (emit a s) = trace s @ [a]"
  by (simp add: emit_def)

lemma trace_DDRB_clear: "trace (DDRB_clear m s) = trace s"
  by (simp add: DDRB_clear_def Let_def)

lemma trace_DDRB_set: "trace (DDRB_set m s) = trace s"
  by (simp add: DDRB_set_def Let_def)

lemma trace_PORTB_clear: "trace (PORTB_clear m s) = trace s"
  by (simp add: PORTB_clear_def Let_def)

lemma trace_macros:
  "trace (I2C_SDA_HIGH s) = trace s @ [SdaHigh]"
  "trace (I2C_SDA_LOW s) = trace s @ [SdaLow]"
  "trace (I2C_SCL_HIGH s) = trace s @ [SclHigh]"
  "trace (I2C_SCL_LOW s) = trace s @ [SclLow]"
  by (simp_all add: I2C_SDA_HIGH_def I2C_SDA_LOW_def I2C_SCL_HIGH_def I2C_SCL_LOW_def
      trace_emit trace_DDRB_clear trace_DDRB_set)

lemma trace_write_bit: "trace (write_bit d s) = trace s @ bit_seq d 0"
  by (simp add: write_bit_def bit_seq_def Let_def trace_macros)

lemma bit_seq_shift: "bit_seq (d * 2) = bit_seq d \<circ> Suc"
  by (rule ext) (simp add: bit_seq_def push_bit_eq_mult power_commutes mult.assoc)

lemma concat_bit_seq_shift:
  "concat (map (bit_seq (d * 2)) ks) = concat (map (bit_seq d) (map Suc ks))"
  by (simp add: bit_seq_shift)

lemma trace_write_loop:
  "trace (write_loop i d s) = trace s @ concat (map (bit_seq d) [0..<unat i])"
proof (induction i d s rule: write_loop.induct)
  case (1 i d s)
  show ?case
  proof (cases "i = 0")
    case True
    then show ?thesis by (simp add: write_loop.simps[of 0])
  next
    case False
    with 1 show ?thesis
      by (simp add: upt_unat_pred trace_write_bit concat_bit_seq_shift write_loop.simps[of i])
  qed
qed

lemma trace_write_loop_t10:
  "trace (write_loop_t10 i d s) = trace s @ concat (map (bit_seq d) [0..<unat i])"
proof (induction i d s rule: write_loop_t10.induct)
  case (1 i d s)
  show ?case
  proof (cases "i = 0")
    case True
    then show ?thesis by (simp add: write_loop_t10.simps[of 0])
  next
    case False
    with 1 show ?thesis
      by (simp add: upt_unat_pred trace_macros bit_seq_def[of d 0] concat_bit_seq_shift
          write_loop_t10.simps[of i] Let_def)
  qed
qed

lemma trace_I2C_write: "trace (I2C_write b s) = trace s @ byte_seq b"
  by (simp add: I2C_write_def trace_macros trace_write_loop byte_seq_def)

lemma trace_I2C_write_t10: "trace (I2C_write_t10 b s) = trace s @ byte_seq b"
  by (simp add: I2C_write_t10_def trace_macros trace_write_loop_t10 byte_seq_def)

lemma trace_I2C_start: "trace (I2C_start s) = trace s @ start_seq"
  by (simp add: I2C_start_def trace_macros start_seq_def)

lemma trace_I2C_stop: "trace (I2C_stop s) = trace s @ stop_seq"
  by (simp add: I2C_stop_def trace_macros stop_seq_def)

lemma bytes_seq_simps:
  "bytes_seq [] = []"
  "bytes_seq (b # bs) = byte_seq b @ bytes_seq bs"
  "bytes_seq (xs @ ys) = bytes_seq xs @ bytes_seq ys"
  by (simp_all add: bytes_seq_def)

subsection \<open>Writing a byte never looks at the pins\<close>

lemma PINB_prims:
  "DDRB_clear m (s\<lparr>PINB := f\<rparr>) = (DDRB_clear m s)\<lparr>PINB := f\<rparr>"
  "DDRB_set m (s\<lparr>PINB := f\<rparr>) = (DDRB_set m s)\<lparr>PINB := f\<rparr>"
  "emit a (s\<lparr>PINB := f\<rparr>) = (emit a s)\<lparr>PINB := f\<rparr>"
  by (simp_all add: DDRB_clear_def DDRB_set_def emit_def Let_def)

lemma PINB_macros:
  "I2C_SDA_HIGH (s\<lparr>PINB := f\<rparr>) = (I2C_SDA_HIGH s)\<lparr>PINB := f\<rparr>"
  "I2C_SDA_LOW (s\<lparr>PINB := f\<rparr>) = (I2C_SDA_LOW s)\<lparr>PINB := f\<rparr>"
  "I2C_SCL_HIGH (s\<lparr>PINB := f\<rparr>) = (I2C_SCL_HIGH s)\<lparr>PINB := f\<rparr>"
  "I2C_SCL_LOW (s\<lparr>PINB := f\<rparr>) = (I2C_SCL_LOW s)\<lparr>PINB := f\<rparr>"
  by (simp_all add: I2C_SDA_HIGH_def I2C_SDA_LOW_def I2C_SCL_HIGH_def I2C_SCL_LOW_def
      PINB_prims)

lemma PINB_write_bit: "write_bit d (s\<lparr>PINB := f\<rparr>) = (write_bit d s)\<lparr>PINB := f\<rparr>"
  by (simp add: write_bit_def Let_def PINB_macros)

lemma PINB_write_loop:
  "write_loop i d (s\<lparr>PINB := f\<rparr>) = (write_loop i d s)\<lparr>PINB := f\<rparr>"
proof (induction i d s rule: write_loop.induct)
  case (1 i d s)
  show ?case
  proof (cases "i = 0")
    case True
    then show ?thesis by (simp add: write_loop.simps[of 0])
  next
    case False
    with 1 show ?thesis
      by (simp add: PINB_write_bit write_loop.simps[of i])
  qed
qed

lemma PINB_write_loop_t10:
  "write_loop_t10 i d (s\<lparr>PINB := f\<rparr>) = (write_loop_t10 i d s)\<lparr>PINB := f\<rparr>"
proof (induction i d s rule: write_loop_t10.induct)
  case (1 i d s)
  show ?case
  proof (cases "i = 0")
    case True
    then show ?thesis by (simp add: write_loop_t10.simps[of 0])
  next
    case False
    from 1 [OF False refl refl refl refl] False show ?thesis
      by (cases "d AND 128 = 0")
        (simp_all add: PINB_macros write_loop_t10.simps[of i] Let_def)
  qed
qed

lemma PINB_I2C_write: "I2C_write b (s\<lparr>PINB := f\<rparr>) = (I2C_write b s)\<lparr>PINB := f\<rparr>"
  by (simp add: I2C_write_def PINB_macros PINB_write_loop)

lemma PINB_I2C_write_t10:
  "I2C_write_t10 b (s\<lparr>PINB := f\<rparr>) = (I2C_write_t10 b s)\<lparr>PINB := f\<rparr>"
  by (simp add: I2C_write_t10_def PINB_macros PINB_write_loop_t10)

subsection \<open>Stretching two bits into a byte\<close>

lemma and_2_u8: "(b :: u8) AND 2 = (if bit b 1 then 2 else 0)"
  by (rule bit_word_eqI) (auto simp: bit_simps bit_numeral_simps  dest: bit_imp_le_length)

lemma and_1_u8: "(b :: u8) AND 1 = (if bit b 0 then 1 else 0)"
  by (simp add: and_one_eq bit_0 mod_2_eq_odd)

lemma stretch_cases:
  "OLED_stretch b =
     (if bit b 1 then (if bit b 0 then 0xFF else 0xF0) else (if bit b 0 then 0x0F else 0x00))"
  by (simp add: OLED_stretch_def Let_def and_2_u8 and_1_u8)

lemma upt_8: "[0..<8] = [0, 1, 2, 3, 4, 5, 6, 7 :: nat]"
  by code_simp

lemma stretch_bits_upto:
  "list_all (\<lambda>n. bit (OLED_stretch b) n = bit b (n div 4)) [0..<8]"
  unfolding upt_8 by (simp add: stretch_cases bit_numeral_simps)

lemma stretch_bits: "bit (OLED_stretch b) n = (n < 8 \<and> bit b (n div 4))"
proof (cases "n < 8")
  case True
  then have "n \<in> set [0..<8]"
    by (simp del: upt_Suc)
  with stretch_bits_upto [of b] True show ?thesis
    unfolding list_all_iff by blast
next
  case False
  then show ?thesis
    by (auto dest: bit_imp_le_length)
qed

subsection \<open>The three counters of the big-digit demo\<close>

lemma succ_eq_0_u8: "(a :: u8) + 1 = 0 \<longleftrightarrow> a = 0xFF"
proof
  assume "a + 1 = 0"
  then have "a = - 1" by (simp add: eq_neg_iff_add_eq_0)
  then show "a = 0xFF" by simp
next
  assume "a = 0xFF"
  then show "a + 1 = 0" by simp
qed

lemma count_step_eq:
  "count_step (a, b, c) =
     (a + 1, if a = 0xFF then b + 1 else b, if a = 0xFF \<and> b = 0xFF then c + 1 else c)"
  by (simp add: count_step_def Let_def succ_eq_0_u8)

lemma count_low: "fst ((count_step ^^ n) (a, b, c)) = a + of_nat n"
proof (induction n)
  case 0
  show ?case by simp
next
  case (Suc n)
  obtain a' b' c' where s: "(count_step ^^ n) (a, b, c) = (a', b', c')"
    by (cases "(count_step ^^ n) (a, b, c)")
  with Suc have "a' = a + of_nat n" by simp
  with s show ?case
    by (simp add: count_step_eq add.assoc)
qed

lemma count_below:
  "unat a + n \<le> 255 \<Longrightarrow> (count_step ^^ n) (a, b, c) = (a + of_nat n, b, c)"
proof (induction n)
  case 0
  show ?case by simp
next
  case (Suc n)
  then have ih: "(count_step ^^ n) (a, b, c) = (a + of_nat n, b, c)"
    by simp
  from Suc.prems have "unat a + n < 255"
    by simp
  then have "unat (a + of_nat n) = unat a + n"
    by (simp add: unat_word_ariths unat_of_nat)
  with \<open>unat a + n < 255\<close> have "unat (a + of_nat n) \<noteq> unat (0xFF :: u8)"
    by simp
  then have "a + of_nat n \<noteq> 0xFF"
    by (rule contrapos_nn) simp
  with ih show ?case
    by (simp add: count_step_eq add.assoc)
qed


lemma count_cycle:
  "(count_step ^^ 256) (a, b, c) = (a, b + 1, if b = 0xFF then c + 1 else c)"
proof -
  define m where "m = 255 - unat a"
  have ua: "unat a < 256"
    using unsigned_less [of a, where ?'a = nat] by simp
  then have split: "256 = unat a + (1 + m)"
    by (simp add: m_def)
  have top: "a + of_nat m = 0xFF"
  proof -
    have "unat (a + of_nat m) = unat a + m"
      using ua by (simp add: unat_word_ariths unat_of_nat m_def)
    then have "unat (a + of_nat m) = unat (0xFF :: u8)"
      using ua by (simp add: m_def)
    then show ?thesis
      by (simp only: word_unat_eq_iff)
  qed
  have 1: "(count_step ^^ m) (a, b, c) = (0xFF, b, c)"
    using count_below [of a m b c] ua top by (simp add: m_def)
  have 2: "count_step (0xFF, b, c) = (0, b + 1, if b = 0xFF then c + 1 else c)"
    by (simp add: count_step_eq)
  have 3: "(count_step ^^ unat a) (0, b + 1, c') = (a, b + 1, c')" for c'
    using count_below [of 0 "unat a" "b + 1" c'] ua by simp
  have "(count_step ^^ 256) (a, b, c) =
      (count_step ^^ unat a) (count_step ((count_step ^^ m) (a, b, c)))"
    by (subst split) (simp only: funpow_add funpow.simps o_apply One_nat_def id_apply)
  then show ?thesis
    by (simp only: 1 2 3)
qed

lemma filter_eq_upt: "filter (\<lambda>k. k = k0) [0..<n] = (if k0 < n then [k0] else [])"
  by (induction n) auto

lemma count_carry_once:
  "filter (\<lambda>k. fst ((count_step ^^ k) (a, b, c)) = 0xFF) [0..<256] = [255 - unat a]"
proof -
  have ua: "unat a < 256"
    using unsigned_less [of a, where ?'a = nat] by simp
  have "(a + of_nat k = 0xFF) = (k = 255 - unat a)" if "k < 256" for k
  proof -
    have "unat (a + of_nat k) = (unat a + k) mod 256"
      using that by (simp add: unat_word_ariths unat_of_nat)
    moreover have "(a + of_nat k = 0xFF) = (unat (a + of_nat k) = unat (0xFF :: u8))"
      by (simp only: word_unat_eq_iff)
    ultimately have "(a + of_nat k = 0xFF) = ((unat a + k) mod 256 = 255)"
      by simp
    also have "\<dots> = (k = 255 - unat a)"
      using ua that by (auto simp: mod_if)
    finally show ?thesis .
  qed
  then have "filter (\<lambda>k. fst ((count_step ^^ k) (a, b, c)) = 0xFF) [0..<256] =
      filter (\<lambda>k. k = 255 - unat a) [0..<256]"
    by (intro filter_cong) (simp_all add: count_low del: upt_Suc)
  then show ?thesis
    using ua by (simp add: filter_eq_upt del: upt_Suc)
qed

lemma count_mid_below:
  "unat b + n \<le> 255 \<Longrightarrow>
     ((count_step ^^ 256) ^^ n) (a, b, c) = (a, b + of_nat n, c)"
proof (induction n)
  case 0
  show ?case by simp
next
  case (Suc n)
  then have ih: "((count_step ^^ 256) ^^ n) (a, b, c) = (a, b + of_nat n, c)"
    by simp
  from Suc.prems have "unat b + n < 255"
    by simp
  then have "unat (b + of_nat n) = unat b + n"
    by (simp add: unat_word_ariths unat_of_nat)
  with \<open>unat b + n < 255\<close> have "unat (b + of_nat n) \<noteq> unat (0xFF :: u8)"
    by simp
  then have "b + of_nat n \<noteq> 0xFF"
    by (rule contrapos_nn) simp
  with ih show ?case
    by (simp add: count_cycle add.assoc del: funpow.simps add: funpow.simps(2)[of n])
qed

lemma count_cycle_mid:
  "(count_step ^^ 65536) (a, b, c) = (a, b, c + 1)"
proof -
  let ?f = "count_step ^^ 256"
  define m where "m = 255 - unat b"
  have ub: "unat b < 256"
    using unsigned_less [of b, where ?'a = nat] by simp
  then have split: "256 = unat b + (1 + m)"
    by (simp add: m_def)
  have top: "b + of_nat m = 0xFF"
  proof -
    have "unat (b + of_nat m) = unat b + m"
      using ub by (simp add: unat_word_ariths unat_of_nat m_def)
    then have "unat (b + of_nat m) = unat (0xFF :: u8)"
      using ub by (simp add: m_def)
    then show ?thesis
      by (simp only: word_unat_eq_iff)
  qed
  have 1: "(?f ^^ m) (a, b, c) = (a, 0xFF, c)"
    using count_mid_below [of b m a c] ub top by (simp add: m_def)
  have 2: "?f (a, 0xFF, c) = (a, 0, c + 1)"
    by (simp only: count_cycle) simp
  have 3: "(?f ^^ unat b) (a, 0, c + 1) = (a, b, c + 1)"
    using count_mid_below [of 0 "unat b" a "c + 1"] ub by simp
  have "(?f ^^ 256) (a, b, c) = (?f ^^ unat b) (?f ((?f ^^ m) (a, b, c)))"
    by (subst split) (simp only: funpow_add funpow.simps o_apply One_nat_def id_apply)
  then have "(?f ^^ 256) (a, b, c) = (a, b, c + 1)"
    by (simp only: 1 2 3)
  moreover have "?f ^^ 256 = count_step ^^ 65536"
    by (simp only: funpow_mult) simp
  ultimately show ?thesis
    by simp
qed

subsection \<open>The font offset of a character\<close>

lemma mod_neg_shift: "- m \<le> x \<Longrightarrow> x < 0 \<Longrightarrow> x mod m = x + m" for x m :: int
proof -
  assume a: "- m \<le> x" "x < 0"
  have "(x + m) mod m = x + m"
    by (rule mod_pos_pos_trivial) (use a in simp_all)
  moreover have "(x + m) mod m = x mod m"
    by simp
  ultimately show ?thesis
    by simp
qed

lemma char_to_int_range:
  "- 128 \<le> char_to_int sc ch \<and> char_to_int sc ch \<le> 255 \<and> char_to_int sc ch mod 256 = uint ch"
proof (cases sc)
  case False
  have "uint ch < 256"
    using uint_bounded [of ch] by simp
  moreover have "- 128 \<le> uint ch"
    using uint_ge_0 [of ch] by linarith
  ultimately show ?thesis
    using False by (simp add: char_to_int_def)
next
  case True
  have "- 128 \<le> sint ch"
    using sint_ge [of ch] by simp
  moreover have "sint ch < 128"
    using sint_lt [of ch] by simp
  moreover have "uint (word_of_int (sint ch) :: u8) = sint ch mod 256"
    by (simp only: uint_word_of_int) simp
  then have "sint ch mod 256 = uint ch"
    by simp
  ultimately show ?thesis
    using True by (simp add: char_to_int_def)
qed

lemma unat_font_offset:
  "unat (font_offset sc ch) = nat (((char_to_int sc ch - 32) * 5) mod 65536)"
proof -
  have "uint (font_offset sc ch) = ((char_to_int sc ch - 32) * 5) mod 65536"
    unfolding font_offset_def by (simp only: uint_word_of_int) simp
  then show ?thesis
    by (simp only: unat_eq_nat_uint)
qed

lemma font_offset_in:
  assumes "32 \<le> ch" "ch \<le> 95"
  shows "unat (font_offset sc ch) = (unat ch - 32) * 5"
proof -
  define v where "v = char_to_int sc ch"
  from assms have u: "32 \<le> uint ch" "uint ch \<le> 95"
    by (simp_all add: word_le_def)
  from char_to_int_range [of sc ch]
  have r: "- 128 \<le> v" "v \<le> 255" "v mod 256 = uint ch"
    by (simp_all add: v_def)
  have "v = uint ch"
  proof (cases "0 \<le> v")
    case True
    with r have "v mod 256 = v" by simp
    with r show ?thesis by simp
  next
    case False
    with r have "v mod 256 = v + 256"
      by (intro mod_neg_shift) simp_all
    with r u False show ?thesis by simp
  qed
  with u have "((v - 32) * 5) mod 65536 = (uint ch - 32) * 5"
    by simp
  then have "unat (font_offset sc ch) = nat ((uint ch - 32) * 5)"
    by (simp add: unat_font_offset v_def)
  also have "\<dots> = (unat ch - 32) * 5"
  proof -
    define n where "n = unat ch"
    have un: "uint ch = int n"
      unfolding n_def by (rule uint_nat)
    with u have "32 \<le> n"
      by simp
    then have "nat ((int n - 32) * 5) = (n - 32) * 5"
      by (simp add: nat_eq_iff of_nat_diff)
    then show ?thesis
      by (simp only: un n_def [symmetric])
  qed
  finally show ?thesis .
qed

lemma font_offset_out:
  assumes "\<not> (32 \<le> ch \<and> ch \<le> 95)"
  shows "320 \<le> unat (font_offset sc ch) \<and> unat (font_offset sc ch) \<le> 65531"
proof -
  define v where "v = char_to_int sc ch"
  from assms have u: "uint ch < 32 \<or> 95 < uint ch"
    by (auto simp: word_le_def)
  from char_to_int_range [of sc ch]
  have r: "- 128 \<le> v" "v \<le> 255" "v mod 256 = uint ch"
    by (simp_all add: v_def)
  have "v < 32 \<or> 95 < v"
  proof (rule ccontr)
    assume "\<not> (v < 32 \<or> 95 < v)"
    then have "32 \<le> v" "v \<le> 95" by simp_all
    then have "v mod 256 = v" by simp
    with r u \<open>32 \<le> v\<close> \<open>v \<le> 95\<close> show False by simp
  qed
  then consider "v < 32" | "95 < v" by blast
  then have "320 \<le> ((v - 32) * 5) mod 65536 \<and> ((v - 32) * 5) mod 65536 \<le> 65531"
  proof cases
    case 1
    with r have "- 65536 \<le> (v - 32) * 5" "(v - 32) * 5 < 0" by simp_all
    then have "((v - 32) * 5) mod 65536 = (v - 32) * 5 + 65536"
      by (intro mod_neg_shift) simp_all
    with 1 r show ?thesis by simp
  next
    case 2
    with r have "0 \<le> (v - 32) * 5" "(v - 32) * 5 < 65536" by simp_all
    then have "((v - 32) * 5) mod 65536 = (v - 32) * 5"
      by simp
    with 2 r show ?thesis by simp
  qed
  then show ?thesis
    by (simp add: unat_font_offset v_def) linarith
qed

subsection \<open>What the text renderer and the display driver send\<close>

lemma length_OLED_font: "length OLED_font = 320"
  by (simp add: OLED_font_def)

lemma unat_succ_u16: "unat (off :: u16) < 320 \<Longrightarrow> unat (off + 1) = Suc (unat off)"
  by (simp add: unat_word_ariths)

lemma printC_loop_trace:
  "unat off + unat i \<le> length OLED_font \<Longrightarrow>
     map_option trace (printC_loop i off s) =
       Some (trace s @ bytes_seq (take (unat i) (drop (unat off) OLED_font)))"
proof (induction i off s rule: printC_loop.induct)
  case (1 i off s)
  show ?case
  proof (cases "i = 0")
    case True
    then show ?thesis
      by (simp add: printC_loop.simps[of 0] bytes_seq_simps)
  next
    case False
    from False have i: "unat i = Suc (unat (i - 1))"
      by (rule unat_pred)
    with "1.prems" have lt: "unat off < length OLED_font"
      by simp
    then have rd: "pgm_read_byte OLED_font (unat off) = Some (OLED_font ! unat off)"
      by (simp add: pgm_read_byte_def)
    from lt have su: "unat (off + 1) = Suc (unat off)"
      by (simp add: unat_succ_u16 length_OLED_font)
    with "1.prems" i have "unat (off + 1) + unat (i - 1) \<le> length OLED_font"
      by simp
    from "1.IH" [OF False rd this]
    have "map_option trace (printC_loop (i - 1) (off + 1) (I2C_write (OLED_font ! unat off) s)) =
        Some (trace s @ byte_seq (OLED_font ! unat off) @
          bytes_seq (take (unat (i - 1)) (drop (Suc (unat off)) OLED_font)))"
      by (simp add: trace_I2C_write su)
    moreover have "take (unat i) (drop (unat off) OLED_font) =
        OLED_font ! unat off # take (unat (i - 1)) (drop (Suc (unat off)) OLED_font)"
      using lt by (simp add: i Cons_nth_drop_Suc [symmetric])
    ultimately show ?thesis
      using False rd by (simp add: printC_loop.simps[of i] bytes_seq_simps)
  qed
qed

lemma OLED_printC_in:
  assumes "in_font ch"
  shows "map_option trace (OLED_printC sc ch s) = Some (trace s @ bytes_seq (glyph ch))"
proof -
  from assms have r: "32 \<le> ch" "ch \<le> 95"
    by (simp_all add: in_font_def)
  then have off: "unat (font_offset sc ch) = (unat ch - 32) * 5"
    by (rule font_offset_in)
  from r have "unat ch \<le> 95"
    by (simp add: word_le_nat_alt)
  with off have "unat (font_offset sc ch) + unat (5 :: u8) \<le> length OLED_font"
    by (simp add: length_OLED_font)
  from printC_loop_trace [OF this, of "I2C_write 0x00 s"] show ?thesis
    by (simp add: OLED_printC_def off glyph_def trace_I2C_write bytes_seq_simps)
qed

lemma OLED_printC_out:
  assumes "\<not> in_font ch"
  shows "OLED_printC sc ch s = None"
proof -
  from assms have "320 \<le> unat (font_offset sc ch)"
    using font_offset_out [of ch sc] by (simp add: in_font_def)
  then have "pgm_read_byte OLED_font (unat (font_offset sc ch)) = None"
    by (simp add: pgm_read_byte_def length_OLED_font)
  then show ?thesis
    by (simp add: OLED_printC_def printC_loop.simps[of 5])
qed

lemma drop_eq_Cons:
  "drop p mem = x # xs \<Longrightarrow> pgm_read_byte mem p = Some x \<and> drop (Suc p) mem = xs"
proof -
  assume a: "drop p mem = x # xs"
  then have "p < length mem"
    by (cases "p < length mem") simp_all
  moreover from a have "mem ! p = x"
    by (rule nth_via_drop)
  moreover from a have "drop (Suc p) mem = xs"
    by (metis drop_Suc list.sel(3) tl_drop)
  ultimately show ?thesis
    by (simp add: pgm_read_byte_def)
qed

lemma in_font_nonzero: "in_font c \<Longrightarrow> c \<noteq> 0"
  by (auto simp: in_font_def)

lemma printP_loop_trace:
  "drop p mem = cs @ 0 # rest \<Longrightarrow> list_all in_font cs \<Longrightarrow>
     map_option trace (printP_loop sc mem (hd (cs @ [0])) p s) =
       Some (trace s @ bytes_seq (concat (map glyph cs)))"
proof (induction cs arbitrary: p s)
  case Nil
  show ?case
    by (simp add: printP_loop.simps bytes_seq_simps)
next
  case (Cons c cs)
  from Cons.prems have c: "in_font c" and cs: "list_all in_font cs"
    by simp_all
  from OLED_printC_in [OF c, of sc s] obtain s1
    where s1: "OLED_printC sc c s = Some s1" "trace s1 = trace s @ bytes_seq (glyph c)"
    by auto
  from Cons.prems have "drop (Suc p) mem = cs @ 0 # rest"
    using drop_eq_Cons [of p mem c "cs @ 0 # rest"] by simp
  moreover from this have "pgm_read_byte mem (Suc p) = Some (hd (cs @ [0]))"
    using drop_eq_Cons [of "Suc p" mem "hd (cs @ [0])" "tl (cs @ 0 # rest)"]
    by (cases cs) simp_all
  ultimately show ?case
    using Cons.IH [of "Suc p" s1] cs s1 in_font_nonzero [OF c]
    by (simp add: printP_loop.simps[of sc mem c] bytes_seq_simps)
qed

lemma OLED_printP_trace:
  assumes "drop p mem = cs @ 0 # rest" "list_all in_font cs"
  shows "map_option trace (OLED_printP sc mem p s) =
           Some (trace s @ frame (0x78 # 0x40 # concat (map glyph cs)))"
proof -
  from assms(1) have "pgm_read_byte mem p = Some (hd (cs @ [0]))"
    using drop_eq_Cons [of p mem "hd (cs @ [0])" "tl (cs @ 0 # rest)"]
    by (cases cs) simp_all
  with printP_loop_trace [OF assms, of sc "I2C_write 0x40 (I2C_write OLED_ADDR (I2C_start s))"]
  show ?thesis
    by (auto simp: OLED_printP_def Let_def trace_I2C_stop trace_I2C_write trace_I2C_start
        frame_def bytes_seq_simps OLED_ADDR_def)
qed

lemma trace_clear_loop:
  "trace (clear_loop i s) = trace s @ bytes_seq (replicate (unat i) 0)"
proof (induction i s rule: clear_loop.induct)
  case (1 i s)
  show ?case
  proof (cases "i = 0")
    case True
    then show ?thesis by (simp add: clear_loop.simps[of 0] bytes_seq_simps)
  next
    case False
    with 1 show ?thesis
      by (simp add: unat_pred[of i] trace_I2C_write bytes_seq_simps clear_loop.simps[of i])
  qed
qed

lemma trace_OLED_cursor:
  "trace (OLED_cursor x y s) =
     trace s @ frame [0x78, 0x00, x AND 0x0F, 0x10 OR drop_bit 4 x, 0xB0 OR (y AND 0x07)]"
  by (simp add: OLED_cursor_def trace_I2C_stop trace_I2C_write trace_I2C_start frame_def
      bytes_seq_simps OLED_ADDR_def)

lemma trace_OLED_clear:
  "trace (OLED_clear s) =
     trace s @ frame [0x78, 0x00, 0x00, 0x10, 0xB0] @ frame (0x78 # 0x40 # replicate 512 0x00)"
  by (simp add: OLED_clear_def trace_I2C_stop trace_clear_loop trace_I2C_write trace_I2C_start
      trace_OLED_cursor frame_def bytes_seq_simps OLED_ADDR_def)

lemma length_OLED_INIT_CMD: "length OLED_INIT_CMD = 20"
  by (simp add: OLED_INIT_CMD_def)

lemma init_loop_trace:
  "unat i \<le> 18 \<Longrightarrow>
     map_option trace (init_loop i s) =
       Some (trace s @ bytes_seq (drop (unat i) (take 18 OLED_INIT_CMD)))"
proof (induction i s rule: init_loop.induct)
  case (1 i s)
  show ?case
  proof (cases "i < OLED_INIT_LEN")
    case False
    with "1.prems" have "unat i = 18"
      by (simp add: OLED_INIT_LEN_def word_less_nat_alt)
    with False show ?thesis
      by (simp add: init_loop.simps[of i] bytes_seq_simps length_OLED_INIT_CMD)
  next
    case True
    then have lt: "unat i < 18"
      by (simp add: OLED_INIT_LEN_def word_less_nat_alt)
    then have rd: "pgm_read_byte OLED_INIT_CMD (unat i) = Some (OLED_INIT_CMD ! unat i)"
      by (simp add: pgm_read_byte_def length_OLED_INIT_CMD)
    from lt have su: "unat (i + 1) = Suc (unat i)"
      by (simp add: unat_word_ariths)
    with lt have "unat (i + 1) \<le> 18"
      by simp
    from "1.IH" [OF True rd this]
    have "map_option trace (init_loop (i + 1) (I2C_write (OLED_INIT_CMD ! unat i) s)) =
        Some (trace s @ byte_seq (OLED_INIT_CMD ! unat i) @
          bytes_seq (drop (Suc (unat i)) (take 18 OLED_INIT_CMD)))"
      by (simp add: trace_I2C_write su)
    moreover have "drop (unat i) (take 18 OLED_INIT_CMD) =
        OLED_INIT_CMD ! unat i # drop (Suc (unat i)) (take 18 OLED_INIT_CMD)"
      using lt by (simp add: Cons_nth_drop_Suc [symmetric] length_OLED_INIT_CMD)
    ultimately show ?thesis
      using True rd by (simp add: init_loop.simps[of i] bytes_seq_simps)
  qed
qed

lemma trace_I2C_init: "trace (I2C_init s) = trace s"
  by (simp add: I2C_init_def trace_PORTB_clear trace_DDRB_clear)

lemma OLED_init_trace:
  "map_option trace (OLED_init s) =
     Some (trace s @ frame (0x78 # 0x00 # take 18 OLED_INIT_CMD))"
  using init_loop_trace [of 0 "I2C_write 0x00 (I2C_write OLED_ADDR (I2C_start (I2C_init s)))"]
  by (auto simp: OLED_init_def trace_I2C_stop trace_I2C_write trace_I2C_start trace_I2C_init
      frame_def bytes_seq_simps OLED_ADDR_def)

lemma font_indices:
  "list_all (\<lambda>k. unat (font_offset sc ch + k) < length OLED_font) [0, 1, 2, 3, 4] = in_font ch"
  "list_ex (\<lambda>k. unat (font_offset sc ch + k) < length OLED_font) [0, 1, 2, 3, 4] = in_font ch"
proof -
  show "list_all (\<lambda>k. unat (font_offset sc ch + k) < length OLED_font) [0, 1, 2, 3, 4] = in_font ch"
  proof (cases "in_font ch")
    case True
    then have r: "32 \<le> ch" "ch \<le> 95"
      by (simp_all add: in_font_def)
    then have off: "unat (font_offset sc ch) = (unat ch - 32) * 5"
      by (rule font_offset_in)
    from r have "unat ch \<le> 95"
      by (simp add: word_le_nat_alt)
    with off have "unat (font_offset sc ch) \<le> 315"
      by simp
    with True show ?thesis
      by (simp add: length_OLED_font unat_word_ariths)
  next
    case False
    then have "320 \<le> unat (font_offset sc ch)" "unat (font_offset sc ch) \<le> 65531"
      using font_offset_out [of ch sc] by (simp_all add: in_font_def)
    with False show ?thesis
      by (simp add: length_OLED_font)
  qed
  show "list_ex (\<lambda>k. unat (font_offset sc ch + k) < length OLED_font) [0, 1, 2, 3, 4] = in_font ch"
  proof (cases "in_font ch")
    case True
    then have r: "32 \<le> ch" "ch \<le> 95"
      by (simp_all add: in_font_def)
    then have off: "unat (font_offset sc ch) = (unat ch - 32) * 5"
      by (rule font_offset_in)
    from r have "unat ch \<le> 95"
      by (simp add: word_le_nat_alt)
    with off have "unat (font_offset sc ch) \<le> 315"
      by simp
    with True show ?thesis
      by (simp add: length_OLED_font)
  next
    case False
    then have "320 \<le> unat (font_offset sc ch)" "unat (font_offset sc ch) \<le> 65531"
      using font_offset_out [of ch sc] by (simp_all add: in_font_def)
    with False show ?thesis
      by (simp add: length_OLED_font unat_word_ariths)
  qed
qed

subsection \<open>What the big-digit renderer sends\<close>

lemma length_OLED_FONT: "length OLED_FONT = 60"
  by (simp add: OLED_FONT_def)

lemma trace_spacing_loop:
  "trace (spacing_loop i s) = trace s @ bytes_seq (replicate (unat i) 0)"
proof (induction i s rule: spacing_loop.induct)
  case (1 i s)
  show ?case
  proof (cases "i = 0")
    case True
    then show ?thesis by (simp add: spacing_loop.simps[of 0] bytes_seq_simps)
  next
    case False
    with 1 show ?thesis
      by (simp add: unat_pred[of i] trace_I2C_write_t10 bytes_seq_simps spacing_loop.simps[of i])
  qed
qed

lemma length_4_conv: "length sb = 4 \<Longrightarrow> \<exists>x0 x1 x2 x3. sb = [x0, x1, x2, x3]"
  by (auto simp: numeral_eq_Suc length_Suc_conv)

lemma stretch_loop_4: "length sb = 4 \<Longrightarrow> stretch_loop 0 b sb = stretch4 b"
proof -
  assume "length sb = 4"
  then obtain x0 x1 x2 x3 where sb: "sb = [x0, x1, x2, x3]"
    using length_4_conv by blast
  show ?thesis
    unfolding sb stretch4_def
    by (simp add: stretch_loop.simps[of 0] stretch_loop.simps[of 1] stretch_loop.simps[of 2]
        stretch_loop.simps[of 3] stretch_loop.simps[of 4] drop_bit_drop_bit)
qed

lemma length_stretch4: "length (stretch4 b) = 4"
  by (simp add: stretch4_def)

lemma trace_column_loop:
  "length sb = 4 \<Longrightarrow> trace (column_loop 0 sb s) = trace s @ bytes_seq sb"
proof -
  assume "length sb = 4"
  then obtain x0 x1 x2 x3 where sb: "sb = [x0, x1, x2, x3]"
    using length_4_conv by blast
  show ?thesis
    unfolding sb
    by (simp add: column_loop.simps[of 0] column_loop.simps[of 1] column_loop.simps[of 2]
        column_loop.simps[of 3] column_loop.simps[of 4] trace_I2C_write_t10 bytes_seq_simps)
qed

lemma trace_repeat_loop:
  "length sb = 4 \<Longrightarrow>
     trace (repeat_loop j sb s) = trace s @ bytes_seq (concat (replicate (unat j) sb))"
proof (induction j sb s rule: repeat_loop.induct)
  case (1 j sb s)
  show ?case
  proof (cases "j = 0")
    case True
    then show ?thesis by (simp add: repeat_loop.simps[of 0] bytes_seq_simps)
  next
    case False
    with 1 show ?thesis
      by (simp add: unat_pred[of j] trace_column_loop bytes_seq_simps repeat_loop.simps[of j])
  qed
qed

lemma glyph_loop_step:
  assumes "i \<noteq> 0" "unat ch < length OLED_FONT" "length sb = 4"
  shows "glyph_loop i ch sb s =
     glyph_loop (i - 1) (ch + 1) (stretch4 (OLED_FONT ! unat ch))
       (repeat_loop (if i = 2 then 6 else 4) (stretch4 (OLED_FONT ! unat ch)) s)"
proof -
  from assms(2) have "pgm_read_byte OLED_FONT (unat ch) = Some (OLED_FONT ! unat ch)"
    by (simp add: pgm_read_byte_def)
  with assms(1) show ?thesis
    by (simp add: glyph_loop.simps[of i] Let_def stretch_loop_4 [OF assms(3)])
qed

lemma glyph_loop_trace:
  assumes "unat ch + 2 < length OLED_FONT" "length sb = 4"
  shows "map_option trace (glyph_loop 3 ch sb s) =
     Some (trace s @ bytes_seq (row 4 (OLED_FONT ! unat ch) @ row 6 (OLED_FONT ! (unat ch + 1)) @
       row 4 (OLED_FONT ! (unat ch + 2))))"
proof -
  define c1 where "c1 = ch + 1"
  define c2 where "c2 = c1 + 1"
  define b0 where "b0 = OLED_FONT ! unat ch"
  define b1 where "b1 = OLED_FONT ! unat c1"
  define b2 where "b2 = OLED_FONT ! unat c2"
  define s1 where "s1 = repeat_loop 4 (stretch4 b0) s"
  define s2 where "s2 = repeat_loop 6 (stretch4 b1) s1"
  define s3 where "s3 = repeat_loop 4 (stretch4 b2) s2"
  from assms(1) have lt: "unat ch < 58"
    by (simp add: length_OLED_FONT)
  then have u1: "unat c1 = unat ch + 1"
    by (simp add: c1_def unat_word_ariths)
  with lt have u2: "unat c2 = unat ch + 2"
    by (simp add: c2_def unat_word_ariths)
  have "glyph_loop 3 ch sb s = glyph_loop 2 c1 (stretch4 b0) s1"
    using glyph_loop_step [of 3 ch sb s] lt assms(2)
    by (simp add: length_OLED_FONT c1_def b0_def s1_def)
  also have "\<dots> = glyph_loop 1 c2 (stretch4 b1) s2"
    using glyph_loop_step [of 2 c1 "stretch4 b0" s1] lt u1
    by (simp add: length_OLED_FONT length_stretch4 c2_def b1_def s2_def)
  also have "\<dots> = glyph_loop 0 (c2 + 1) (stretch4 b2) s3"
    using glyph_loop_step [of 1 c2 "stretch4 b1" s2] lt u2
    by (simp add: length_OLED_FONT length_stretch4 b2_def s3_def)
  also have "\<dots> = Some s3"
    by (simp add: glyph_loop.simps[of 0])
  finally have "map_option trace (glyph_loop 3 ch sb s) = Some (trace s3)"
    by simp
  moreover have "trace s3 = trace s @ bytes_seq (row 4 b0 @ row 6 b1 @ row 4 b2)"
    by (simp add: s3_def s2_def s1_def trace_repeat_loop length_stretch4 row_def
        bytes_seq_simps)
  ultimately show ?thesis
    by (simp add: b0_def b1_def b2_def u1 u2)
qed

lemma font_pos:
  assumes "ch < (20 :: u8)"
  shows "unat (ch + push_bit 1 ch) = 3 * unat ch" "unat (3 * ch) = 3 * unat ch"
proof -
  from assms have "unat ch < 20"
    by (simp add: word_less_nat_alt)
  then show "unat (3 * ch) = 3 * unat ch"
    by (simp add: unat_word_ariths)
  then show "unat (ch + push_bit 1 ch) = 3 * unat ch"
    by (simp add: push_bit_eq_mult)
qed

lemma OLED_printD_trace:
  assumes "ch < 20"
  shows "map_option trace (OLED_printD ch s) =
     Some (trace s @ bytes_seq (replicate 8 0x00 @ row 4 (OLED_FONT ! (3 * unat ch)) @
       row 6 (OLED_FONT ! (3 * unat ch + 1)) @ row 4 (OLED_FONT ! (3 * unat ch + 2))))"
proof -
  from assms have "unat ch < 20"
    by (simp add: word_less_nat_alt)
  with font_pos(1) [OF assms] have "unat (ch + push_bit 1 ch) + 2 < length OLED_FONT"
    by (simp add: length_OLED_FONT)
  from glyph_loop_trace [OF this, of "replicate 4 0" "spacing_loop 8 s"] show ?thesis
    by (simp add: OLED_printD_def font_pos [OF assms] trace_spacing_loop bytes_seq_simps)
qed

subsection \<open>Clock pulses, register states and the invariant of the engine\<close>

lemma scl_bit_seq:
  "filter (\<lambda>a. a = SclHigh \<or> a = SclLow) (bit_seq b i) = [SclHigh, SclLow]"
  by (simp add: bit_seq_def)

lemma scl_concat_bit_seq:
  "filter (\<lambda>a. a = SclHigh \<or> a = SclLow) (concat (map (bit_seq b) ks)) =
     concat (replicate (length ks) [SclHigh, SclLow])"
  by (induction ks) (simp_all add: scl_bit_seq)

lemma count_pulses_replicate:
  "count_pulses (concat (replicate n [SclHigh, SclLow]) @ ops) = n + count_pulses ops"
  by (induction n) simp_all

lemma clock_pulses_byte: "clock_pulses (byte_seq b) = 9"
  using count_pulses_replicate [of 8 "[SclHigh, SclLow]"]
  by (simp add: clock_pulses_def byte_seq_def scl_concat_bit_seq)

lemma regs_prims:
  "PORTB (DDRB_clear m s) = PORTB s" "hist (DDRB_clear m s) = hist s @ [(DDRB s AND NOT m, PORTB s)]"
  "DDRB (DDRB_clear m s) = DDRB s AND NOT m"
  "PORTB (DDRB_set m s) = PORTB s" "hist (DDRB_set m s) = hist s @ [(DDRB s OR m, PORTB s)]"
  "DDRB (DDRB_set m s) = DDRB s OR m"
  "PORTB (PORTB_clear m s) = PORTB s AND NOT m"
  "hist (PORTB_clear m s) = hist s @ [(DDRB s, PORTB s AND NOT m)]"
  "DDRB (PORTB_clear m s) = DDRB s"
  "PORTB (emit a s) = PORTB s" "hist (emit a s) = hist s" "DDRB (emit a s) = DDRB s"
  by (simp_all add: DDRB_clear_def DDRB_set_def PORTB_clear_def emit_def Let_def)

lemma clear_low_or_float:
  "\<not> bit p I2C_SDA \<Longrightarrow> \<not> bit p I2C_SCL \<Longrightarrow> low_or_float (d, p) \<and> never_high (d, p)"
  by (simp add: low_or_float_def never_high_def pin_state_def)

lemma bus_inv_macros:
  assumes "bus_inv s"
  shows "bus_inv (I2C_SDA_HIGH s)" "bus_inv (I2C_SDA_LOW s)"
    "bus_inv (I2C_SCL_HIGH s)" "bus_inv (I2C_SCL_LOW s)"
  using assms clear_low_or_float
  by (simp_all add: bus_inv_def port_clear_def I2C_SDA_HIGH_def I2C_SDA_LOW_def
      I2C_SCL_HIGH_def I2C_SCL_LOW_def regs_prims)

lemma bus_inv_init: "bus_inv (I2C_init (s\<lparr>hist := []\<rparr>))"
  by (simp add: bus_inv_def port_clear_def I2C_init_def regs_prims never_high_def
      low_or_float_def pin_state_def bit_simps I2C_SDA_def I2C_SCL_def PB0_def PB2_def)

lemma bus_inv_reinit: "bus_inv s \<Longrightarrow> bus_inv (I2C_init s)"
  using clear_low_or_float
  by (simp add: bus_inv_def port_clear_def I2C_init_def regs_prims bit_simps)

lemma bus_inv_start: "bus_inv s \<Longrightarrow> bus_inv (I2C_start s)"
  by (simp add: I2C_start_def bus_inv_macros)

lemma bus_inv_stop: "bus_inv s \<Longrightarrow> bus_inv (I2C_stop s)"
  by (simp add: I2C_stop_def bus_inv_macros)

lemma bus_inv_write_bit: "bus_inv s \<Longrightarrow> bus_inv (write_bit d s)"
  by (simp add: write_bit_def Let_def bus_inv_macros)

lemma bus_inv_write_loop: "bus_inv s \<Longrightarrow> bus_inv (write_loop i d s)"
proof (induction i d s rule: write_loop.induct)
  case (1 i d s)
  show ?case
  proof (cases "i = 0")
    case True
    with "1.prems" show ?thesis by (simp add: write_loop.simps[of 0])
  next
    case False
    with 1 show ?thesis
      by (simp add: bus_inv_write_bit write_loop.simps[of i])
  qed
qed

lemma bus_inv_write: "bus_inv s \<Longrightarrow> bus_inv (I2C_write b s)"
  by (simp add: I2C_write_def bus_inv_macros bus_inv_write_loop)

lemma bus_inv_read_bit: "bus_inv s \<Longrightarrow> bus_inv (snd (read_bit d s))"
  by (simp add: read_bit_def Let_def bus_inv_macros)

lemma bus_inv_read_loop: "bus_inv s \<Longrightarrow> bus_inv (snd (read_loop i d s))"
proof (induction i d s rule: read_loop.induct)
  case (1 i d s)
  show ?case
  proof (cases "i = 0")
    case True
    with "1.prems" show ?thesis by (simp add: read_loop.simps[of 0])
  next
    case False
    obtain d1 s1 where rb: "read_bit d s = (d1, s1)"
      by (cases "read_bit d s")
    with "1.prems" have "bus_inv s1"
      using bus_inv_read_bit [of s d] by simp
    from "1.IH" [OF False rb [symmetric] this] False rb show ?thesis
      by (simp add: read_loop.simps[of i])
  qed
qed

lemma bus_inv_read: "bus_inv s \<Longrightarrow> bus_inv (snd (I2C_read ack s))"
proof -
  assume a: "bus_inv s"
  obtain d1 s1 where rl: "read_loop 8 0 (I2C_SDA_HIGH s) = (d1, s1)"
    by (cases "read_loop 8 0 (I2C_SDA_HIGH s)")
  with a have "bus_inv s1"
    using bus_inv_read_loop [of "I2C_SDA_HIGH s" 8 0] by (simp add: bus_inv_macros)
  with rl show ?thesis
    by (simp add: I2C_read_def Let_def bus_inv_macros)
qed

lemma bus_inv_exec_call: "bus_inv s \<Longrightarrow> bus_inv (exec_call c s)"
  by (cases c) (simp_all add: bus_inv_reinit bus_inv_start bus_inv_stop bus_inv_write bus_inv_read)

lemma bus_inv_fold: "bus_inv s \<Longrightarrow> bus_inv (fold exec_call cs s)"
  by (induction cs arbitrary: s) (simp_all add: bus_inv_exec_call)

lemma hist_macros:
  "hist (I2C_SDA_HIGH s) = hist s @ [(DDRB s AND NOT (push_bit I2C_SDA 1), PORTB s)]"
  "hist (I2C_SDA_LOW s) = hist s @ [(DDRB s OR push_bit I2C_SDA 1, PORTB s)]"
  "hist (I2C_SCL_HIGH s) = hist s @ [(DDRB s AND NOT (push_bit I2C_SCL 1), PORTB s)]"
  "hist (I2C_SCL_LOW s) = hist s @ [(DDRB s OR push_bit I2C_SCL 1, PORTB s)]"
  by (simp_all add: I2C_SDA_HIGH_def I2C_SDA_LOW_def I2C_SCL_HIGH_def I2C_SCL_LOW_def regs_prims)

lemma regs_macros:
  "DDRB (I2C_SDA_HIGH s) = DDRB s AND NOT (push_bit I2C_SDA 1)"
  "DDRB (I2C_SDA_LOW s) = DDRB s OR push_bit I2C_SDA 1"
  "DDRB (I2C_SCL_HIGH s) = DDRB s AND NOT (push_bit I2C_SCL 1)"
  "DDRB (I2C_SCL_LOW s) = DDRB s OR push_bit I2C_SCL 1"
  "PORTB (I2C_SDA_HIGH s) = PORTB s" "PORTB (I2C_SDA_LOW s) = PORTB s"
  "PORTB (I2C_SCL_HIGH s) = PORTB s" "PORTB (I2C_SCL_LOW s) = PORTB s"
  by (simp_all add: I2C_SDA_HIGH_def I2C_SDA_LOW_def I2C_SCL_HIGH_def I2C_SCL_LOW_def regs_prims)

lemma start_stop_lines:
  assumes "lines (DDRB s, PORTB s) = (Floating, Floating)"
  shows "map lines (hist (I2C_stop (I2C_start (s\<lparr>hist := []\<rparr>)))) =
     [(DriveLow, Floating), (DriveLow, DriveLow), (DriveLow, DriveLow),
      (DriveLow, Floating), (Floating, Floating)]"
proof -
  from assms have b: "\<not> bit (DDRB s) 0" "\<not> bit (DDRB s) 2" "\<not> bit (PORTB s) 0" "\<not> bit (PORTB s) 2"
    by (auto simp: lines_def pin_state_def I2C_SDA_def I2C_SCL_def PB0_def PB2_def
        split: if_splits)
  then show ?thesis
    by (simp add: I2C_stop_def I2C_start_def hist_macros regs_macros lines_def pin_state_def
        I2C_SDA_def I2C_SCL_def PB0_def PB2_def bit_simps)
qed

subsection \<open>A log determines the bytes of its transaction\<close>

lemma parse_bit_seq:
  "parse_bits (Suc n) (bit_seq b k @ ops) =
     map_option (\<lambda>(bs, r). ((push_bit k b AND 0x80 \<noteq> 0) # bs, r)) (parse_bits n ops)"
  by (simp add: bit_seq_def)

lemma parse_bits_concat:
  "parse_bits (length ks) (concat (map (bit_seq b) ks) @ ops) =
     Some (map (\<lambda>k. push_bit k b AND 0x80 \<noteq> 0) ks, ops)"
  by (induction ks) (simp_all add: parse_bit_seq)

lemma parse_byte_seq:
  "parse_bits 8 (byte_seq b @ ops) =
     Some (map (\<lambda>k. push_bit k b AND 0x80 \<noteq> 0) [0..<8], [SdaHigh, SclHigh, SclLow] @ ops)"
  using parse_bits_concat [of "[0..<8]" b "[SdaHigh, SclHigh, SclLow] @ ops"]
  by (simp add: byte_seq_def del: upt_Suc)

lemma top_bit_shift: "k < 8 \<Longrightarrow> (push_bit k (b :: u8) AND 0x80 \<noteq> 0) = bit b (7 - k)"
proof -
  assume k: "k < 8"
  have e: "(0x80 :: u8) = 2 ^ 7"
    by simp
  have "(push_bit k b AND 0x80 \<noteq> 0) = bit (push_bit k b) 7"
    unfolding e by (simp only: and_exp_eq_0_iff_not_bit not_not)
  with k show ?thesis
    by (auto simp: bit_simps)
qed

lemma byte_seq_inject:
  assumes "byte_seq a @ r = byte_seq b @ r'"
  shows "a = b \<and> r = r'"
proof -
  from assms have "parse_bits 8 (byte_seq a @ r) = parse_bits 8 (byte_seq b @ r')"
    by simp
  then have eq: "map (\<lambda>k. push_bit k a AND 0x80 \<noteq> 0) [0..<8] =
      map (\<lambda>k. push_bit k b AND 0x80 \<noteq> 0) [0..<8]" and r: "r = r'"
    by (simp_all only: parse_byte_seq option.inject prod.inject append_same_eq same_append_eq)
  have "bit a n = bit b n" for n
  proof (cases "n < 8")
    case True
    then have "7 - n \<in> set [0..<8]"
      by (simp del: upt_Suc)
    with eq have "(push_bit (7 - n) a AND 0x80 \<noteq> 0) = (push_bit (7 - n) b AND 0x80 \<noteq> 0)"
      by (simp only: map_eq_conv)
    with True show ?thesis
      by (simp add: top_bit_shift)
  next
    case False
    then show ?thesis
      by (auto dest: bit_imp_le_length)
  qed
  then have "a = b"
    by (rule bit_eqI)
  with r show ?thesis
    by simp
qed

lemma byte_seq_not_Nil: "byte_seq b @ r \<noteq> []"
  by (simp add: byte_seq_def)

lemma bytes_seq_inject:
  "bytes_seq xs @ stop_seq = bytes_seq ys @ stop_seq \<Longrightarrow> xs = ys"
proof (induction xs arbitrary: ys)
  case Nil
  show ?case
  proof (cases ys)
    case Nil
    then show ?thesis by simp
  next
    case (Cons y ys')
    with Nil.prems have "parse_bits 8 stop_seq = parse_bits 8 (byte_seq y @ bytes_seq ys' @ stop_seq)"
      by (simp add: bytes_seq_simps)
    then show ?thesis
      by (simp only: parse_byte_seq) (simp add: stop_seq_def numeral_eq_Suc)
  qed
next
  case (Cons x xs)
  show ?case
  proof (cases ys)
    case Nil
    with Cons.prems have "parse_bits 8 (byte_seq x @ bytes_seq xs @ stop_seq) = parse_bits 8 stop_seq"
      by (simp add: bytes_seq_simps)
    then show ?thesis
      by (simp only: parse_byte_seq) (simp add: stop_seq_def numeral_eq_Suc)
  next
    case (Cons y ys')
    with Cons.prems have "byte_seq x @ (bytes_seq xs @ stop_seq) = byte_seq y @ (bytes_seq ys' @ stop_seq)"
      by (simp add: bytes_seq_simps)
    then have "x = y" "bytes_seq xs @ stop_seq = bytes_seq ys' @ stop_seq"
      using byte_seq_inject by blast+
    with Cons.IH [of ys'] Cons show ?thesis
      by simp
  qed
qed

lemma frame_inject: "frame xs = frame ys \<Longrightarrow> xs = ys"
  by (rule bytes_seq_inject) (simp add: frame_def)

subsection \<open>Start and stop in the big-digit demo, and the lines after \<open>I2C_init\<close>\<close>

text \<open>In the big-digit demo \<open>I2C_start\<close> sends the address itself, so there a start
  followed by a stop is a transaction of one byte.\<close>

lemma trace_start_stop_t10:
  "trace (I2C_stop (I2C_start_t10 addr s)) = trace s @ frame [addr]"
  by (simp add: I2C_start_t10_def trace_I2C_stop trace_I2C_write_t10 trace_macros frame_def
      start_seq_def bytes_seq_simps)

lemma lines_init: "lines (DDRB (I2C_init s), PORTB (I2C_init s)) = (Floating, Floating)"
  by (simp add: I2C_init_def regs_prims lines_def pin_state_def bit_simps
      I2C_SDA_def I2C_SCL_def PB0_def PB2_def)

subsection \<open>The registers follow the log\<close>

lemma ddr_seq_append:
  "ddr_seq d (xs @ ys) = ddr_seq d xs @ ddr_seq (fold ddr_step xs d) ys"
  by (induction xs arbitrary: d) simp_all

lemma drives_Nil: "drives [] s s"
  by (simp add: drives_def)

lemma drives_trans:
  "drives xs s s1 \<Longrightarrow> drives ys s1 s2 \<Longrightarrow> drives (xs @ ys) s s2"
  by (simp add: drives_def ddr_seq_append)

lemma PINB_regs:
  "PINB (I2C_SDA_HIGH s) = PINB s" "PINB (I2C_SDA_LOW s) = PINB s"
  "PINB (I2C_SCL_HIGH s) = PINB s" "PINB (I2C_SCL_LOW s) = PINB s"
  by (simp_all add: I2C_SDA_HIGH_def I2C_SDA_LOW_def I2C_SCL_HIGH_def I2C_SCL_LOW_def
      DDRB_clear_def DDRB_set_def emit_def Let_def)

lemma drives_macros:
  "drives [SdaHigh] s (I2C_SDA_HIGH s)" "drives [SdaLow] s (I2C_SDA_LOW s)"
  "drives [SclHigh] s (I2C_SCL_HIGH s)" "drives [SclLow] s (I2C_SCL_LOW s)"
  by (simp_all add: drives_def trace_macros hist_macros regs_macros PINB_regs
      set_bit_eq_or unset_bit_eq_and_not I2C_SDA_def I2C_SCL_def PB0_def PB2_def)

text \<open>States reached from \<open>s0\<close> by line actions only: every operation but
  \<open>I2C_init\<close> keeps a state among them.\<close>

lemma drives_step:
  assumes "\<exists>ops. drives ops s0 s" "drives [a] s s'"
  shows "\<exists>ops. drives ops s0 s'"
  using assms drives_trans by blast

lemma reach_macros:
  assumes "\<exists>ops. drives ops s0 s"
  shows "\<exists>ops. drives ops s0 (I2C_SDA_HIGH s)" "\<exists>ops. drives ops s0 (I2C_SDA_LOW s)"
    "\<exists>ops. drives ops s0 (I2C_SCL_HIGH s)" "\<exists>ops. drives ops s0 (I2C_SCL_LOW s)"
  using assms drives_macros drives_step by blast+

lemma reach_drives:
  assumes "\<exists>ops. drives ops s s'" "trace s' = trace s @ xs"
  shows "drives xs s s'"
proof -
  from assms(1) obtain ops where d: "drives ops s s'" ..
  then have "trace s' = trace s @ ops"
    by (simp add: drives_def)
  with assms(2) have "ops = xs"
    by simp
  with d show ?thesis
    by simp
qed

lemma reach_write_bit: "\<exists>ops. drives ops s0 s \<Longrightarrow> \<exists>ops. drives ops s0 (write_bit d s)"
  by (simp add: write_bit_def Let_def reach_macros)

lemma reach_write_loop: "\<exists>ops. drives ops s0 s \<Longrightarrow> \<exists>ops. drives ops s0 (write_loop i d s)"
proof (induction i d s rule: write_loop.induct)
  case (1 i d s)
  show ?case
  proof (cases "i = 0")
    case True
    with "1.prems" show ?thesis by (simp add: write_loop.simps[of 0])
  next
    case False
    with 1 show ?thesis
      by (simp add: reach_write_bit write_loop.simps[of i])
  qed
qed

lemma reach_write_loop_t10:
  "\<exists>ops. drives ops s0 s \<Longrightarrow> \<exists>ops. drives ops s0 (write_loop_t10 i d s)"
proof (induction i d s rule: write_loop_t10.induct)
  case (1 i d s)
  show ?case
  proof (cases "i = 0")
    case True
    with "1.prems" show ?thesis by (simp add: write_loop_t10.simps[of 0])
  next
    case False
    let ?s1 = "I2C_SDA_LOW s"
    let ?s2 = "if d AND 0x80 \<noteq> 0 then I2C_SDA_HIGH ?s1 else ?s1"
    have "\<exists>ops. drives ops s0 (I2C_SCL_LOW (I2C_SCL_HIGH ?s2))"
      using "1.prems" by (simp add: reach_macros)
    from "1.IH" [OF False refl refl refl refl this] False show ?thesis
      by (simp add: write_loop_t10.simps[of i] Let_def)
  qed
qed

lemma reach_I2C_write: "\<exists>ops. drives ops s0 s \<Longrightarrow> \<exists>ops. drives ops s0 (I2C_write b s)"
  by (simp add: I2C_write_def reach_macros reach_write_loop)

lemma reach_I2C_write_t10:
  "\<exists>ops. drives ops s0 s \<Longrightarrow> \<exists>ops. drives ops s0 (I2C_write_t10 b s)"
  by (simp add: I2C_write_t10_def reach_macros reach_write_loop_t10)

lemma reach_refl: "\<exists>ops. drives ops s s"
  using drives_Nil by blast

lemma drives_I2C_write: "drives (byte_seq b) s (I2C_write b s)"
  using reach_I2C_write [OF reach_refl] trace_I2C_write by (rule reach_drives)

lemma drives_I2C_write_t10: "drives (byte_seq b) s (I2C_write_t10 b s)"
  using reach_I2C_write_t10 [OF reach_refl] trace_I2C_write_t10 by (rule reach_drives)

lemma lines_ddr_step:
  "\<not> bit p 0 \<Longrightarrow> \<not> bit p 2 \<Longrightarrow> lines (ddr_step a d, p) = pin_step a (lines (d, p))"
  by (cases a)
    (simp_all add: lines_def pin_state_def I2C_SDA_def I2C_SCL_def PB0_def PB2_def bit_simps)

lemma lines_ddr_seq:
  "\<not> bit p 0 \<Longrightarrow> \<not> bit p 2 \<Longrightarrow>
     map lines (map (\<lambda>d. (d, p)) (ddr_seq d ops)) = pin_seq (lines (d, p)) ops"
  by (induction ops arbitrary: d) (simp_all add: lines_ddr_step)

lemma drives_pins:
  assumes "drives ops (s\<lparr>hist := []\<rparr>) s'" "port_clear s"
  shows "map lines (hist s') = pin_seq (lines (DDRB s, PORTB s)) ops"
  using assms lines_ddr_seq [of "PORTB s" "DDRB s" ops]
  by (simp add: drives_def port_clear_def I2C_SDA_def I2C_SCL_def PB0_def PB2_def)

lemma reach_I2C_start: "\<exists>ops. drives ops s0 s \<Longrightarrow> \<exists>ops. drives ops s0 (I2C_start s)"
  by (simp add: I2C_start_def reach_macros)

lemma reach_I2C_stop: "\<exists>ops. drives ops s0 s \<Longrightarrow> \<exists>ops. drives ops s0 (I2C_stop s)"
  by (simp add: I2C_stop_def reach_macros)

lemma reach_OLED_cursor:
  "\<exists>ops. drives ops s0 s \<Longrightarrow> \<exists>ops. drives ops s0 (OLED_cursor x y s)"
  by (simp add: OLED_cursor_def reach_I2C_start reach_I2C_stop reach_I2C_write)

lemma reach_clear_loop:
  "\<exists>ops. drives ops s0 s \<Longrightarrow> \<exists>ops. drives ops s0 (clear_loop i s)"
proof (induction i s rule: clear_loop.induct)
  case (1 i s)
  show ?case
  proof (cases "i = 0")
    case True
    with "1.prems" show ?thesis by (simp add: clear_loop.simps[of 0])
  next
    case False
    with 1 show ?thesis
      by (simp add: reach_I2C_write clear_loop.simps[of i])
  qed
qed

lemma reach_OLED_clear: "\<exists>ops. drives ops s0 s \<Longrightarrow> \<exists>ops. drives ops s0 (OLED_clear s)"
  by (simp add: OLED_clear_def reach_I2C_start reach_I2C_stop reach_I2C_write reach_clear_loop
      reach_OLED_cursor)

lemma reach_printC_loop:
  "\<exists>ops. drives ops s0 s \<Longrightarrow> printC_loop i off s = Some s' \<Longrightarrow> \<exists>ops. drives ops s0 s'"
proof (induction i off s rule: printC_loop.induct)
  case (1 i off s)
  show ?case
  proof (cases "i = 0")
    case True
    with "1.prems" show ?thesis by (simp add: printC_loop.simps[of 0])
  next
    case False
    with "1.prems"(2) obtain b where
      rd: "pgm_read_byte OLED_font (unat off) = Some b" and
      rec: "printC_loop (i - 1) (off + 1) (I2C_write b s) = Some s'"
      by (auto simp: printC_loop.simps[of i] split: option.splits)
    from "1.IH" [OF False rd reach_I2C_write [OF "1.prems"(1)] rec] show ?thesis .
  qed
qed

lemma reach_OLED_printC:
  "\<exists>ops. drives ops s0 s \<Longrightarrow> OLED_printC sc ch s = Some s' \<Longrightarrow> \<exists>ops. drives ops s0 s'"
  unfolding OLED_printC_def by (rule reach_printC_loop [OF reach_I2C_write])

lemma reach_printP_loop:
  "\<exists>ops. drives ops s0 s \<Longrightarrow> printP_loop sc mem ch p s = Some s' \<Longrightarrow>
     \<exists>ops. drives ops s0 s'"
proof (induction sc mem ch p s rule: printP_loop.induct)
  case (1 sc mem ch p s)
  show ?case
  proof (cases "ch = 0")
    case True
    with "1.prems" show ?thesis by (simp add: printP_loop.simps[of sc mem 0])
  next
    case False
    with "1.prems"(2) obtain s1 ch1 where
      pc: "OLED_printC sc ch s = Some s1" and
      rd: "pgm_read_byte mem (p + 1) = Some ch1" and
      rec: "printP_loop sc mem ch1 (p + 1) s1 = Some s'"
      by (auto simp: printP_loop.simps[of sc mem ch] split: option.splits)
    from "1.IH" [OF False pc rd reach_OLED_printC [OF "1.prems"(1) pc] rec] show ?thesis .
  qed
qed

lemma reach_OLED_printP:
  assumes "\<exists>ops. drives ops s0 s" "OLED_printP sc mem p s = Some s'"
  shows "\<exists>ops. drives ops s0 s'"
proof -
  let ?s1 = "I2C_write 0x40 (I2C_write OLED_ADDR (I2C_start s))"
  from assms(2) obtain ch s2 where
    "printP_loop sc mem ch p ?s1 = Some s2" "s' = I2C_stop s2"
    by (auto simp: OLED_printP_def Let_def split: option.splits)
  moreover have "\<exists>ops. drives ops s0 ?s1"
    using assms(1) by (simp add: reach_I2C_start reach_I2C_write)
  ultimately show ?thesis
    using reach_printP_loop reach_I2C_stop by blast
qed

lemma reach_spacing_loop:
  "\<exists>ops. drives ops s0 s \<Longrightarrow> \<exists>ops. drives ops s0 (spacing_loop i s)"
proof (induction i s rule: spacing_loop.induct)
  case (1 i s)
  show ?case
  proof (cases "i = 0")
    case True
    with "1.prems" show ?thesis by (simp add: spacing_loop.simps[of 0])
  next
    case False
    with 1 show ?thesis
      by (simp add: reach_I2C_write_t10 spacing_loop.simps[of i])
  qed
qed

lemma reach_column_loop:
  "\<exists>ops. drives ops s0 s \<Longrightarrow> \<exists>ops. drives ops s0 (column_loop k sb s)"
proof (induction k sb s rule: column_loop.induct)
  case (1 k sb s)
  show ?case
  proof (cases "k < 4")
    case False
    with "1.prems" show ?thesis by (simp add: column_loop.simps[of k])
  next
    case True
    with 1 show ?thesis
      by (simp add: reach_I2C_write_t10 column_loop.simps[of k])
  qed
qed

lemma reach_repeat_loop:
  "\<exists>ops. drives ops s0 s \<Longrightarrow> \<exists>ops. drives ops s0 (repeat_loop j sb s)"
proof (induction j sb s rule: repeat_loop.induct)
  case (1 j sb s)
  show ?case
  proof (cases "j = 0")
    case True
    with "1.prems" show ?thesis by (simp add: repeat_loop.simps[of 0])
  next
    case False
    with 1 show ?thesis
      by (simp add: reach_column_loop repeat_loop.simps[of j])
  qed
qed

lemma reach_glyph_loop:
  "\<exists>ops. drives ops s0 s \<Longrightarrow> glyph_loop i ch sb s = Some s' \<Longrightarrow> \<exists>ops. drives ops s0 s'"
proof (induction i ch sb s rule: glyph_loop.induct)
  case (1 i ch sb s)
  show ?case
  proof (cases "i = 0")
    case True
    with "1.prems" show ?thesis by (simp add: glyph_loop.simps[of 0])
  next
    case False
    with "1.prems"(2) obtain b where
      rd: "pgm_read_byte OLED_FONT (unat ch) = Some b" and
      rec: "glyph_loop (i - 1) (ch + 1) (stretch_loop 0 b sb)
              (repeat_loop (if i = 2 then 6 else 4) (stretch_loop 0 b sb) s) = Some s'"
      by (auto simp: glyph_loop.simps[of i] Let_def split: option.splits)
    from "1.IH" [OF False rd refl refl reach_repeat_loop [OF "1.prems"(1)] rec]
    show ?thesis .
  qed
qed

lemma reach_OLED_printD:
  "\<exists>ops. drives ops s0 s \<Longrightarrow> OLED_printD ch s = Some s' \<Longrightarrow> \<exists>ops. drives ops s0 s'"
  unfolding OLED_printD_def by (rule reach_glyph_loop [OF reach_spacing_loop])

lemma reach_drives_option:
  assumes "map_option trace (f s) = Some (trace s @ xs)"
    and "\<And>s'. f s = Some s' \<Longrightarrow> \<exists>ops. drives ops s s'"
  shows "\<exists>s'. f s = Some s' \<and> drives xs s s'"
proof -
  from assms(1) obtain s' where s': "f s = Some s'" "trace s' = trace s @ xs"
    by auto
  from assms(2) [OF s'(1)] s'(2) have "drives xs s s'"
    by (rule reach_drives)
  with s'(1) show ?thesis
    by blast
qed

lemma drives_OLED_clear:
  "drives (frame [0x78, 0x00, 0x00, 0x10, 0xB0] @ frame (0x78 # 0x40 # replicate 512 0x00)) s
     (OLED_clear s)"
  using reach_OLED_clear [OF reach_refl] trace_OLED_clear by (rule reach_drives)

lemma drives_OLED_cursor:
  "drives (frame [0x78, 0x00, x AND 0x0F, 0x10 OR drop_bit 4 x, 0xB0 OR (y AND 0x07)]) s
     (OLED_cursor x y s)"
  using reach_OLED_cursor [OF reach_refl] trace_OLED_cursor by (rule reach_drives)

lemma drives_OLED_printP:
  assumes "drop p mem = cs @ 0 # rest" "list_all in_font cs"
  shows "\<exists>s'. OLED_printP sc mem p s = Some s' \<and>
           drives (frame (0x78 # 0x40 # concat (map glyph cs))) s s'"
  using OLED_printP_trace [OF assms] reach_OLED_printP [OF reach_refl]
  by (rule reach_drives_option)

lemma drives_OLED_printD:
  assumes "ch < 20"
  shows "\<exists>s'. OLED_printD ch s = Some s' \<and>
     drives (bytes_seq (replicate 8 0x00 @ row 4 (OLED_FONT ! (3 * unat ch)) @
       row 6 (OLED_FONT ! (3 * unat ch + 1)) @ row 4 (OLED_FONT ! (3 * unat ch + 2)))) s s'"
  using OLED_printD_trace [OF assms] reach_OLED_printD [OF reach_refl]
  by (rule reach_drives_option)

section \<open>Properties of the two programs\<close>

text \<open>
  C1. For every byte \<open>b\<close>, from every state, \<open>I2C_write\<close> (in both programs) invokes
  exactly the line macros of \<open>byte_seq b\<close>, in that order: eight times data LOW, data
  released if bit \<open>(b << i) & 0x80\<close> is set, clock HIGH, clock LOW, and then data
  released, clock HIGH, clock LOW for the acknowledge pulse. It returns a state and
  nothing else, and what the slave puts on the pins (\<open>PINB\<close>, here replaced by any
  \<open>f\<close>) changes nothing of what it does: the acknowledge bit is not looked at.
  In the registers it makes exactly one write to \<open>DDRB\<close> per action, setting the bit of
  a line driven LOW and clearing the bit of a line released, and leaves \<open>PORTB\<close> as it
  is. When the \<open>PORTB\<close> bits of the two lines are clear, as \<open>I2C_init\<close> leaves them, the
  pins go through exactly the states of the sequence: driven LOW or floating, one line
  changing per action.
\<close>

theorem I2C_write_transitions:
  "trace (I2C_write b s) = trace s @ byte_seq b \<and>
   trace (I2C_write_t10 b s) = trace s @ byte_seq b \<and>
   I2C_write b (s\<lparr>PINB := f\<rparr>) = (I2C_write b s)\<lparr>PINB := f\<rparr> \<and>
   I2C_write_t10 b (s\<lparr>PINB := f\<rparr>) = (I2C_write_t10 b s)\<lparr>PINB := f\<rparr> \<and>
   hist (I2C_write b s) = hist s @ map (\<lambda>d. (d, PORTB s)) (ddr_seq (DDRB s) (byte_seq b)) \<and>
   hist (I2C_write_t10 b s) =
     hist s @ map (\<lambda>d. (d, PORTB s)) (ddr_seq (DDRB s) (byte_seq b)) \<and>
   drives (byte_seq b) s (I2C_write b s) \<and>
   drives (byte_seq b) s (I2C_write_t10 b s) \<and>
   (port_clear s \<longrightarrow>
      map lines (hist (I2C_write b (s\<lparr>hist := []\<rparr>))) =
        pin_seq (lines (DDRB s, PORTB s)) (byte_seq b) \<and>
      map lines (hist (I2C_write_t10 b (s\<lparr>hist := []\<rparr>))) =
        pin_seq (lines (DDRB s, PORTB s)) (byte_seq b))"
proof -
  have d: "drives (byte_seq b) s (I2C_write b s)" "drives (byte_seq b) s (I2C_write_t10 b s)"
    by (rule drives_I2C_write, rule drives_I2C_write_t10)
  then have h:
    "hist (I2C_write b s) = hist s @ map (\<lambda>d. (d, PORTB s)) (ddr_seq (DDRB s) (byte_seq b))"
    "hist (I2C_write_t10 b s) =
       hist s @ map (\<lambda>d. (d, PORTB s)) (ddr_seq (DDRB s) (byte_seq b))"
    by (simp_all add: drives_def)
  have p: "map lines (hist (I2C_write b (s\<lparr>hist := []\<rparr>))) =
        pin_seq (lines (DDRB s, PORTB s)) (byte_seq b)"
    "map lines (hist (I2C_write_t10 b (s\<lparr>hist := []\<rparr>))) =
        pin_seq (lines (DDRB s, PORTB s)) (byte_seq b)" if "port_clear s"
    using drives_pins [OF drives_I2C_write that] drives_pins [OF drives_I2C_write_t10 that]
    by simp_all
  show ?thesis
    by (intro conjI impI trace_I2C_write trace_I2C_write_t10 PINB_I2C_write PINB_I2C_write_t10
        d h p)
qed

theorem I2C_write_transitions_witness:
  "trace (I2C_write 0xA5 power_on) =
     [SdaLow, SdaHigh, SclHigh, SclLow, SdaLow, SclHigh, SclLow,
      SdaLow, SdaHigh, SclHigh, SclLow, SdaLow, SclHigh, SclLow,
      SdaLow, SclHigh, SclLow, SdaLow, SdaHigh, SclHigh, SclLow,
      SdaLow, SclHigh, SclLow, SdaLow, SdaHigh, SclHigh, SclLow,
      SdaHigh, SclHigh, SclLow] \<and>
   port_clear (I2C_start power_on) \<and>
   map lines (hist (I2C_write 0xA5 ((I2C_start power_on)\<lparr>hist := []\<rparr>))) =
     [(DriveLow, DriveLow), (Floating, DriveLow), (Floating, Floating), (Floating, DriveLow),
      (DriveLow, DriveLow), (DriveLow, Floating), (DriveLow, DriveLow),
      (DriveLow, DriveLow), (Floating, DriveLow), (Floating, Floating), (Floating, DriveLow),
      (DriveLow, DriveLow), (DriveLow, Floating), (DriveLow, DriveLow),
      (DriveLow, DriveLow), (DriveLow, Floating), (DriveLow, DriveLow),
      (DriveLow, DriveLow), (Floating, DriveLow), (Floating, Floating), (Floating, DriveLow),
      (DriveLow, DriveLow), (DriveLow, Floating), (DriveLow, DriveLow),
      (DriveLow, DriveLow), (Floating, DriveLow), (Floating, Floating), (Floating, DriveLow),
      (Floating, DriveLow), (Floating, Floating), (Floating, DriveLow)]"
proof -
  have bs: "byte_seq 0xA5 =
     [SdaLow, SdaHigh, SclHigh, SclLow, SdaLow, SclHigh, SclLow,
      SdaLow, SdaHigh, SclHigh, SclLow, SdaLow, SclHigh, SclLow,
      SdaLow, SclHigh, SclLow, SdaLow, SdaHigh, SclHigh, SclLow,
      SdaLow, SclHigh, SclLow, SdaLow, SdaHigh, SclHigh, SclLow,
      SdaHigh, SclHigh, SclLow]"
    by code_simp
  have tr: "trace (I2C_write 0xA5 power_on) = byte_seq 0xA5"
    using I2C_write_transitions [of "0xA5" power_on, THEN conjunct1]
    by (simp add: power_on_def)
  have pc: "port_clear (I2C_start power_on)"
    by (simp add: port_clear_def I2C_start_def regs_macros power_on_def)
  have ln: "lines (DDRB (I2C_start power_on), PORTB (I2C_start power_on)) = (DriveLow, DriveLow)"
    by (simp add: I2C_start_def regs_macros power_on_def lines_def pin_state_def
        I2C_SDA_def I2C_SCL_def PB0_def PB2_def bit_simps)
  have ps: "pin_seq (DriveLow, DriveLow) (byte_seq 0xA5) =
     [(DriveLow, DriveLow), (Floating, DriveLow), (Floating, Floating), (Floating, DriveLow),
      (DriveLow, DriveLow), (DriveLow, Floating), (DriveLow, DriveLow),
      (DriveLow, DriveLow), (Floating, DriveLow), (Floating, Floating), (Floating, DriveLow),
      (DriveLow, DriveLow), (DriveLow, Floating), (DriveLow, DriveLow),
      (DriveLow, DriveLow), (DriveLow, Floating), (DriveLow, DriveLow),
      (DriveLow, DriveLow), (Floating, DriveLow), (Floating, Floating), (Floating, DriveLow),
      (DriveLow, DriveLow), (DriveLow, Floating), (DriveLow, DriveLow),
      (DriveLow, DriveLow), (Floating, DriveLow), (Floating, Floating), (Floating, DriveLow),
      (Floating, DriveLow), (Floating, Floating), (Floating, DriveLow)]"
    unfolding bs by simp
  from I2C_write_transitions [of "0xA5" "I2C_start power_on", THEN conjunct2, THEN conjunct2,
      THEN conjunct2, THEN conjunct2, THEN conjunct2, THEN conjunct2, THEN conjunct2,
      THEN conjunct2, THEN mp, OF pc, THEN conjunct1]
  have m: "map lines (hist (I2C_write 0xA5 ((I2C_start power_on)\<lparr>hist := []\<rparr>))) =
      pin_seq (DriveLow, DriveLow) (byte_seq 0xA5)"
    by (simp only: ln)
  from tr have t: "trace (I2C_write 0xA5 power_on) =
     [SdaLow, SdaHigh, SclHigh, SclLow, SdaLow, SclHigh, SclLow,
      SdaLow, SdaHigh, SclHigh, SclLow, SdaLow, SclHigh, SclLow,
      SdaLow, SclHigh, SclLow, SdaLow, SdaHigh, SclHigh, SclLow,
      SdaLow, SclHigh, SclLow, SdaLow, SdaHigh, SclHigh, SclLow,
      SdaHigh, SclHigh, SclLow]"
    by (simp only: bs)
  from t pc m [unfolded ps] show ?thesis
    by (intro conjI)
qed

text \<open>
  C2. \<open>OLED_stretch\<close> maps the four 2-bit patterns 0, 1, 2, 3 to \<open>0x00\<close>, \<open>0x0F\<close>,
  \<open>0xF0\<close>, \<open>0xFF\<close>; for every byte \<open>b\<close>, bit \<open>n\<close> of the result is bit 0 of \<open>b\<close> for
  \<open>n\<close> = 0..3 and bit 1 of \<open>b\<close> for \<open>n\<close> = 4..7 (the other bits of \<open>b\<close> do not
  matter).
\<close>

theorem OLED_stretch_replicates:
  "OLED_stretch 0 = 0x00 \<and> OLED_stretch 1 = 0x0F \<and>
   OLED_stretch 2 = 0xF0 \<and> OLED_stretch 3 = 0xFF \<and>
   (\<forall>n. bit (OLED_stretch b) n = (n < 8 \<and> bit b (n div 4)))"
  by (simp add: stretch_bits) (simp add: OLED_stretch_def)

text \<open>
  C3 (as the code has it). For every source byte, \<open>OLED_printD\<close> applies
  \<open>OLED_stretch\<close> four times, to \<open>b\<close>, \<open>b >> 2\<close>, \<open>b >> 4\<close> and \<open>b >> 6\<close>, one
  application per bit pair, which gives the four stretched bytes of that source byte.
  For a digit value below 20 it sends 8 zero bytes, then the four bytes of the first
  source byte 4 times, those of the middle source byte 6 times and those of the last
  source byte 4 times. The registers follow: one write to \<open>DDRB\<close> per line action of
  these bytes, \<open>PORTB\<close> untouched.
\<close>

theorem OLED_printD_stream:
  assumes "length sb = 4" and "ch < 20"
  shows "stretch_loop 0 b sb =
       [OLED_stretch b, OLED_stretch (drop_bit 2 b),
        OLED_stretch (drop_bit 4 b), OLED_stretch (drop_bit 6 b)] \<and>
     map_option trace (OLED_printD ch s) =
       Some (trace s @ bytes_seq (replicate 8 0x00 @
         concat (replicate 4 (stretch_loop 0 (OLED_FONT ! (3 * unat ch)) sb)) @
         concat (replicate 6 (stretch_loop 0 (OLED_FONT ! (3 * unat ch + 1)) sb)) @
         concat (replicate 4 (stretch_loop 0 (OLED_FONT ! (3 * unat ch + 2)) sb)))) \<and>
     (\<exists>s'. OLED_printD ch s = Some s' \<and>
        drives (bytes_seq (replicate 8 0x00 @
          concat (replicate 4 (stretch_loop 0 (OLED_FONT ! (3 * unat ch)) sb)) @
          concat (replicate 6 (stretch_loop 0 (OLED_FONT ! (3 * unat ch + 1)) sb)) @
          concat (replicate 4 (stretch_loop 0 (OLED_FONT ! (3 * unat ch + 2)) sb)))) s s')"
  using stretch_loop_4 [OF assms(1)] OLED_printD_trace [OF assms(2), of s]
    drives_OLED_printD [OF assms(2), of s]
  by (simp add: stretch4_def row_def)

theorem OLED_printD_stream_witness:
  "length (replicate 4 (0 :: u8)) = 4 \<and> (1 :: u8) < 20 \<and>
   stretch_loop 0 0x41 (replicate 4 0) = [0x0F, 0x00, 0x00, 0x0F] \<and>
   map_option trace (OLED_printD 1 power_on) =
     Some (bytes_seq (replicate 8 0x00 @
       concat (replicate 4 [0x00, 0x00, 0x00, 0x00]) @
       concat (replicate 6 [0x00, 0x00, 0x00, 0x00]) @
       concat (replicate 4 [0xFF, 0xFF, 0xFF, 0x0F])))"
proof -
  have 1: "length (replicate 4 (0 :: u8)) = 4"
    by simp
  have 2: "(1 :: u8) < 20"
    by simp
  have f: "OLED_FONT ! 3 = 0x00" "OLED_FONT ! 4 = 0x00" "OLED_FONT ! 5 = 0x7F"
    by (simp_all add: OLED_FONT_def)
  have v: "stretch_loop 0 0x00 (replicate 4 0) = [0x00, 0x00, 0x00, 0x00]"
    "stretch_loop 0 0x7F (replicate 4 0) = [0xFF, 0xFF, 0xFF, 0x0F]"
    by (simp_all add: stretch_loop_4 stretch4_def OLED_stretch_def drop_bit_eq_div)
  have t: "trace power_on = []"
    by (simp add: power_on_def)
  from OLED_printD_stream [OF 1 2, of "0x41" power_on]
  have "stretch_loop 0 0x41 (replicate 4 0) = [0x0F, 0x00, 0x00, 0x0F]"
    and "map_option trace (OLED_printD 1 power_on) =
      Some (bytes_seq (replicate 8 0x00 @
        concat (replicate 4 [0x00, 0x00, 0x00, 0x00]) @
        concat (replicate 6 [0x00, 0x00, 0x00, 0x00]) @
        concat (replicate 4 [0xFF, 0xFF, 0xFF, 0x0F])))"
    by (simp_all add: f v t OLED_stretch_def drop_bit_eq_div del: replicate.simps)
  with 1 2 show ?thesis
    by blast
qed

theorem stretch_twice_counterexample:
  "\<not> set (stretch_loop 0 0x7F (replicate 4 0)) \<subseteq>
     {OLED_stretch 0x7F, OLED_stretch (drop_bit 2 0x7F)}"
proof -
  have "stretch_loop 0 0x7F (replicate 4 0) = [0xFF, 0xFF, 0xFF, 0x0F]"
    by (simp add: stretch_loop_4 stretch4_def OLED_stretch_def drop_bit_eq_div)
  moreover have "OLED_stretch 0x7F = 0xFF" "OLED_stretch (drop_bit 2 0x7F) = 0xFF"
    by (simp_all add: OLED_stretch_def drop_bit_eq_div)
  ultimately show ?thesis
    by simp
qed

text \<open>
  C4. On an idle bus (both lines floating), \<open>I2C_start\<close> followed at once by
  \<open>I2C_stop\<close> invokes data LOW, clock LOW, data LOW, clock released, data released,
  and nothing else. The lines go through: data driven LOW while the clock floats HIGH
  (START), clock LOW, then data LOW, clock released, and data released while the clock
  floats HIGH (STOP). The log is that of a transaction of no bytes; it has no clock
  pulse, where every byte has nine.
\<close>

theorem start_then_stop:
  assumes "lines (DDRB s, PORTB s) = (Floating, Floating)"
  shows "trace (I2C_stop (I2C_start s)) = trace s @ [SdaLow, SclLow, SdaLow, SclHigh, SdaHigh] \<and>
     map lines (hist (I2C_stop (I2C_start (s\<lparr>hist := []\<rparr>)))) =
       [(DriveLow, Floating), (DriveLow, DriveLow), (DriveLow, DriveLow),
        (DriveLow, Floating), (Floating, Floating)] \<and>
     trace (I2C_stop (I2C_start s)) = trace s @ frame [] \<and>
     clock_pulses [SdaLow, SclLow, SdaLow, SclHigh, SdaHigh] = 0 \<and>
     clock_pulses (byte_seq b) = 9"
  using start_stop_lines [OF assms] clock_pulses_byte [of b]
  by (simp add: trace_I2C_stop trace_I2C_start frame_def bytes_seq_simps start_seq_def
      stop_seq_def clock_pulses_def)

theorem start_then_stop_witness:
  "lines (DDRB (I2C_init power_on), PORTB (I2C_init power_on)) = (Floating, Floating) \<and>
   trace (I2C_stop (I2C_start (I2C_init power_on))) =
     [SdaLow, SclLow, SdaLow, SclHigh, SdaHigh] \<and>
   map lines (hist (I2C_stop (I2C_start ((I2C_init power_on)\<lparr>hist := []\<rparr>)))) =
     [(DriveLow, Floating), (DriveLow, DriveLow), (DriveLow, DriveLow),
      (DriveLow, Floating), (Floating, Floating)]"
proof -
  have idle: "lines (DDRB (I2C_init power_on), PORTB (I2C_init power_on)) = (Floating, Floating)"
    by (simp add: I2C_init_def regs_prims power_on_def lines_def pin_state_def)
  from start_then_stop [OF idle] idle show ?thesis
    by (simp add: trace_I2C_init power_on_def)
qed

text \<open>
  C5. \<open>I2C_init\<close> leaves both lines floating, whatever the registers held. Start
  from any register contents, call \<open>I2C_init\<close> and then any sequence of
  \<open>I2C_init\<close>, \<open>I2C_start\<close>, \<open>I2C_stop\<close>, \<open>I2C_write\<close> and \<open>I2C_read\<close>, with any
  arguments and any behaviour of the slave. After every single register write since
  the call of \<open>I2C_init\<close> neither line is driven HIGH; after every one but the first
  (the \<open>DDRB\<close> write of \<open>I2C_init\<close>, when the \<open>PORTB\<close> bits may still be set and the
  pins are inputs) each line is either driven LOW or floating.
\<close>

theorem lines_never_driven_high:
  "lines (DDRB (I2C_init s), PORTB (I2C_init s)) = (Floating, Floating) \<and>
   list_all never_high (hist (fold exec_call cs (I2C_init (s\<lparr>hist := []\<rparr>)))) \<and>
   list_all low_or_float (tl (hist (fold exec_call cs (I2C_init (s\<lparr>hist := []\<rparr>)))))"
  using bus_inv_fold [OF bus_inv_init, of cs s] lines_init [of s] by (simp add: bus_inv_def)

theorem lines_never_driven_high_witness:
  "list_all never_high
     (hist (fold exec_call [Start, WriteByte 0x78, ReadByte 1, Stop]
       (I2C_init (power_on\<lparr>DDRB := 0xFF, PORTB := 0xFF, hist := []\<rparr>))))"
  using lines_never_driven_high
    [of "power_on\<lparr>DDRB := 0xFF, PORTB := 0xFF\<rparr>" "[Start, WriteByte 0x78, ReadByte 1, Stop]"]
  by simp

text \<open>
  C6. From every state, \<open>OLED_clear\<close> sends two transactions and nothing else: first
  the cursor command (address \<open>0x78\<close>, command mode \<open>0x00\<close>, column low nibble \<open>0x00\<close>,
  column high nibble \<open>0x10\<close>, page \<open>0xB0\<close>: what \<open>OLED_cursor\<close> sends for column 0,
  page 0), then one transaction of the address, the data mode byte \<open>0x40\<close> and exactly
  512 zero bytes. After \<open>OLED_init\<close>, which always succeeds and sends the first 18
  bytes of the init table in command mode, the same holds. The registers follow: one
  write to \<open>DDRB\<close> per line action of these transactions, \<open>PORTB\<close> untouched.
\<close>

theorem OLED_clear_stream:
  "trace (OLED_clear s) =
     trace s @ frame [0x78, 0x00, 0x00, 0x10, 0xB0] @ frame (0x78 # 0x40 # replicate 512 0x00) \<and>
   trace (OLED_cursor x y s) =
     trace s @ frame [0x78, 0x00, x AND 0x0F, 0x10 OR drop_bit 4 x, 0xB0 OR (y AND 0x07)] \<and>
   map_option (trace \<circ> OLED_clear) (OLED_init s) =
     Some (trace s @ frame (0x78 # 0x00 # take 18 OLED_INIT_CMD) @
       frame [0x78, 0x00, 0x00, 0x10, 0xB0] @ frame (0x78 # 0x40 # replicate 512 0x00)) \<and>
   drives (frame [0x78, 0x00, 0x00, 0x10, 0xB0] @ frame (0x78 # 0x40 # replicate 512 0x00)) s
     (OLED_clear s) \<and>
   drives (frame [0x78, 0x00, x AND 0x0F, 0x10 OR drop_bit 4 x, 0xB0 OR (y AND 0x07)]) s
     (OLED_cursor x y s)"
proof -
  from OLED_init_trace [of s] obtain s1 where
    "OLED_init s = Some s1" "trace s1 = trace s @ frame (0x78 # 0x00 # take 18 OLED_INIT_CMD)"
    by auto
  then have "map_option (trace \<circ> OLED_clear) (OLED_init s) =
     Some (trace s @ frame (0x78 # 0x00 # take 18 OLED_INIT_CMD) @
       frame [0x78, 0x00, 0x00, 0x10, 0xB0] @ frame (0x78 # 0x40 # replicate 512 0x00))"
    by (simp add: trace_OLED_clear)
  then show ?thesis
    by (intro conjI trace_OLED_clear trace_OLED_cursor drives_OLED_clear drives_OLED_cursor)
qed

text \<open>
  C7. \<open>OLED_printP\<close> on the string \<open>"A!"\<close> (bytes \<open>0x41, 0x21, 0x00\<close> at the pointer,
  anything before and after) succeeds and sends one transaction: the address, the data
  mode byte \<open>0x40\<close>, then a zero byte, the five font bytes at offset 165, a zero byte and
  the five font bytes at offset 5: 12 bytes after the mode byte. In general, for a string of
  characters with codes 32..95 followed by a zero, it sends the glyph of each character
  in order and stops at the zero, whatever follows it in memory. The registers follow:
  one write to \<open>DDRB\<close> per line action of the transaction, \<open>PORTB\<close> untouched.
\<close>

theorem OLED_printP_A_bang:
  "map_option trace (OLED_printP sc (pre @ [0x41, 0x21, 0x00] @ post) (length pre) s) =
     Some (trace s @ frame ([0x78, 0x40] @ [0x00] @ take 5 (drop 165 OLED_font) @
       [0x00] @ take 5 (drop 5 OLED_font))) \<and>
   take 5 (drop 165 OLED_font) = [0x7C, 0x12, 0x11, 0x12, 0x7C] \<and>
   take 5 (drop 5 OLED_font) = [0x00, 0x00, 0x2F, 0x00, 0x00] \<and>
   length ([0x00] @ take 5 (drop 165 OLED_font) @ [0x00] @ take 5 (drop 5 OLED_font)) = 12 \<and>
   (drop p mem = cs @ 0 # rest \<and> list_all in_font cs \<longrightarrow>
      map_option trace (OLED_printP sc mem p s) =
        Some (trace s @ frame (0x78 # 0x40 # concat (map glyph cs)))) \<and>
   (\<exists>s'. OLED_printP sc (pre @ [0x41, 0x21, 0x00] @ post) (length pre) s = Some s' \<and>
      drives (frame ([0x78, 0x40] @ [0x00] @ take 5 (drop 165 OLED_font) @
        [0x00] @ take 5 (drop 5 OLED_font))) s s') \<and>
   (drop p mem = cs @ 0 # rest \<and> list_all in_font cs \<longrightarrow>
      (\<exists>s'. OLED_printP sc mem p s = Some s' \<and>
         drives (frame (0x78 # 0x40 # concat (map glyph cs))) s s'))"
proof -
  have "drop (length pre) (pre @ [0x41, 0x21, 0x00] @ post) = [0x41, 0x21] @ 0 # post"
    by simp
  moreover have "list_all in_font [0x41, 0x21]"
    by (simp add: in_font_def)
  ultimately have "map_option trace (OLED_printP sc (pre @ [0x41, 0x21, 0x00] @ post) (length pre) s) =
      Some (trace s @ frame (0x78 # 0x40 # concat (map glyph [0x41, 0x21])))"
    and "\<exists>s'. OLED_printP sc (pre @ [0x41, 0x21, 0x00] @ post) (length pre) s = Some s' \<and>
      drives (frame (0x78 # 0x40 # concat (map glyph [0x41, 0x21]))) s s'"
    by (rule OLED_printP_trace, rule drives_OLED_printP)
  moreover have "glyph 0x41 = 0x00 # take 5 (drop 165 OLED_font)"
    by (simp add: glyph_def)
  moreover have "glyph 0x21 = 0x00 # take 5 (drop 5 OLED_font)"
    by (simp add: glyph_def)
  moreover have "take 5 (drop 165 OLED_font) = [0x7C, 0x12, 0x11, 0x12, 0x7C]"
    by (simp add: OLED_font_def)
  moreover have "take 5 (drop 5 OLED_font) = [0x00, 0x00, 0x2F, 0x00, 0x00]"
    by (simp add: OLED_font_def)
  ultimately show ?thesis
    using OLED_printP_trace [of p mem cs rest sc s] drives_OLED_printP [of p mem cs rest sc s]
    by simp
qed

theorem OLED_printP_A_bang_witness:
  "drop 0 Message1 = butlast Message1 @ 0 # [] \<and> list_all in_font (butlast Message1) \<and>
   map_option trace (OLED_printP False Message1 0 power_on) =
     Some (frame (0x78 # 0x40 # concat (map glyph (butlast Message1))))"
proof -
  have 1: "drop 0 Message1 = butlast Message1 @ 0 # []"
    by (simp add: Message1_def)
  have 2: "list_all in_font (butlast Message1)"
    by (simp add: Message1_def in_font_def)
  from OLED_printP_A_bang [of False "[]" "[]" power_on 0 Message1 "butlast Message1" "[]"] 1 2
  have "map_option trace (OLED_printP False Message1 0 power_on) =
     Some (trace power_on @ frame (0x78 # 0x40 # concat (map glyph (butlast Message1))))"
    by blast
  with 1 2 show ?thesis
    by (simp add: power_on_def)
qed

text \<open>
  C8. One pass of the counter update of \<open>main\<close>: from \<open>counter_a = 0xFF\<close> the low
  counter wraps to 0 and \<open>counter_b\<close> goes up by one; in general \<open>counter_b\<close> goes up by
  one exactly when \<open>counter_a\<close> was \<open>0xFF\<close> and is unchanged otherwise, and
  \<open>counter_c\<close> goes up by one exactly when both were \<open>0xFF\<close>. Over any 256 passes
  \<open>counter_a\<close> returns to its value and \<open>counter_b\<close> has gone up by exactly one; among
  those 256 passes exactly one (number \<open>255 - counter_a\<close>) starts at
  \<open>counter_a = 0xFF\<close>. Over any 65536 passes \<open>counter_c\<close> goes up by exactly one.
\<close>

theorem counter_rollover:
  "count_step (0xFF, b, c) = (0, b + 1, if b = 0xFF then c + 1 else c) \<and>
   count_step (a, b, c) =
     (a + 1, if a = 0xFF then b + 1 else b, if a = 0xFF \<and> b = 0xFF then c + 1 else c) \<and>
   (count_step ^^ 256) (a, b, c) = (a, b + 1, if b = 0xFF then c + 1 else c) \<and>
   filter (\<lambda>k. fst ((count_step ^^ k) (a, b, c)) = 0xFF) [0..<256] = [255 - unat a] \<and>
   (count_step ^^ 65536) (a, b, c) = (a, b, c + 1)"
  using count_step_eq [of "0xFF" b c] count_step_eq [of a b c] count_cycle [of a b c]
    count_carry_once [of a b c] count_cycle_mid [of a b c]
  by (simp only: simp_thms if_True) simp

text \<open>
  C9. For digit value 0 the index computed by \<open>OLED_printD\<close> is 0, and the three
  bytes it reads from \<open>OLED_FONT\<close> are \<open>0x7F\<close>, \<open>0x41\<close>, \<open>0x7F\<close>; what it sends is the
  spacing and the stretched columns of exactly these three bytes.
\<close>

theorem digit_0_glyph:
  "map (\<lambda>k. pgm_read_byte OLED_FONT (unat ((0 :: u8) + push_bit 1 0 + k))) [0, 1, 2] =
     [Some 0x7F, Some 0x41, Some 0x7F] \<and>
   take 3 (drop (3 * 0) OLED_FONT) = [0x7F, 0x41, 0x7F] \<and>
   map_option trace (OLED_printD 0 s) =
     Some (trace s @ bytes_seq (replicate 8 0x00 @ row 4 0x7F @ row 6 0x41 @ row 4 0x7F)) \<and>
   (\<exists>s'. OLED_printD 0 s = Some s' \<and>
      drives (bytes_seq (replicate 8 0x00 @ row 4 0x7F @ row 6 0x41 @ row 4 0x7F)) s s')"
proof -
  have "map (\<lambda>k. pgm_read_byte OLED_FONT (unat ((0 :: u8) + push_bit 1 0 + k))) [0, 1, 2] =
      [Some 0x7F, Some 0x41, Some 0x7F]"
    by (simp add: pgm_read_byte_def OLED_FONT_def)
  moreover have "take 3 (drop (3 * 0) OLED_FONT) = [0x7F, 0x41, 0x7F]"
    by (simp add: OLED_FONT_def)
  moreover have "OLED_FONT ! 0 = 0x7F" "OLED_FONT ! Suc 0 = 0x41" "OLED_FONT ! Suc (Suc 0) = 0x7F"
    by (simp_all add: OLED_FONT_def)
  ultimately show ?thesis
    using OLED_printD_trace [of 0 s] drives_OLED_printD [of 0 s] by simp
qed

text \<open>
  C10. \<open>OLED_printC\<close> checks no bound. The five indices it reads, \<open>offset\<close> to
  \<open>offset + 4\<close>, all lie inside the font table of 320 bytes exactly when the character
  code is in 32..95; for any other code all five lie outside. The model's \<open>OLED_printC\<close>
  returns a state exactly for the codes 32..95. This holds whether plain \<open>char\<close> is
  signed or not.
\<close>

theorem OLED_printC_bounds:
  "list_all (\<lambda>k. unat (font_offset sc ch + k) < length OLED_font) [0, 1, 2, 3, 4] =
     (32 \<le> ch \<and> ch \<le> 95) \<and>
   list_ex (\<lambda>k. unat (font_offset sc ch + k) < length OLED_font) [0, 1, 2, 3, 4] =
     (32 \<le> ch \<and> ch \<le> 95) \<and>
   (OLED_printC sc ch s \<noteq> None) = (32 \<le> ch \<and> ch \<le> 95) \<and>
   length OLED_font = 320"
proof -
  have "(OLED_printC sc ch s \<noteq> None) = in_font ch"
  proof (cases "in_font ch")
    case True
    with OLED_printC_in [of ch sc s] show ?thesis
      by auto
  next
    case False
    with OLED_printC_out [of ch sc s] show ?thesis
      by simp
  qed
  then show ?thesis
    using font_indices [of sc ch] by (simp add: in_font_def length_OLED_font)
qed

end
